theory Spec2Isabelle
  imports Main "HOL-Library.Word"
begin

section \<open>Expression trees\<close>

text \<open>
  The classes of \<^verbatim>\<open>evaluator.py\<close> (and the subset of them that \<^verbatim>\<open>evaluator2.py\<close>
  declares) as one datatype. A Python \<^verbatim>\<open>Ref\<close> is a mutable object: its identity is the
  \<open>ref_id\<close> carried by the node, and its evaluation fields live in the state below.
  \<^verbatim>\<open>Int\<close> is written \<open>Int'\<close>, the enum members of \<^verbatim>\<open>UnaryOp\<close> and \<^verbatim>\<open>BinaryOp\<close>
  carry a prefix, and a \<^verbatim>\<open>float\<close> is its 64 bits (no function here inspects it).
\<close>

type_synonym ref_id = nat

datatype RefModifier = ABSOLUTE | RELATIVE

datatype UnaryOp = U_PLUS | U_MINUS

datatype BinaryOp = B_PLUS | B_MINUS | B_STAR | B_SLASH

datatype expr =
    Str string
  | Bool bool
  | Int' int
  | Float "64 word"
  | Ref ref_id "expr list" RefModifier
  | Unary UnaryOp expr
  | Binary expr BinaryOp expr
  | Array "expr list"
  | Table "table_item list"
and table_item =
    TableItem (key: expr) (val: expr) (item_parent: "expr option")

text \<open>
  The evaluation fields of a \<^verbatim>\<open>Ref\<close> object (\<^verbatim>\<open>_parent\<close>, \<^verbatim>\<open>_cache\<close>, \<^verbatim>\<open>_evaluated\<close>;
  \<^verbatim>\<open>parent\<close>, \<^verbatim>\<open>cache\<close>, \<^verbatim>\<open>evaluated\<close> in \<^verbatim>\<open>evaluator2.py\<close>). The tables and keys of
  the tree are never assigned to, so a pointer to a node is the node itself; the fields
  of the references inside it are read from the state by their identity.
\<close>

record ref_state =
  parent :: "expr option"
  cache :: "expr option"
  evaluated :: bool

type_synonym state = "ref_id \<Rightarrow> ref_state"

definition fresh :: state where
  "fresh = (\<lambda>_. \<lparr>parent = None, cache = None, evaluated = False\<rparr>)"

section \<open>Exceptions and outcomes\<close>

datatype error =
    NotImplementedError
  | RecursionError
  | KeyError string expr expr
  | RuntimeError string
  | TypeError string
  | UnboundLocalError string

text \<open>
  \<^verbatim>\<open>except RuntimeError\<close> also catches the subclasses of \<^verbatim>\<open>RuntimeError\<close>:
  \<^verbatim>\<open>NotImplementedError\<close>, and \<^verbatim>\<open>RecursionError\<close>, which the interpreter raises when
  its stack is full.
\<close>

fun is_RuntimeError :: "error \<Rightarrow> bool" where
  "is_RuntimeError (RuntimeError _) = True"
| "is_RuntimeError NotImplementedError = True"
| "is_RuntimeError RecursionError = True"
| "is_RuntimeError _ = False"

fun is_TypeError :: "error \<Rightarrow> bool" where
  "is_TypeError (TypeError _) = True"
| "is_TypeError _ = False"

text \<open>
  A call either raises or returns, and in both cases leaves a state behind: an
  exception does not undo the assignments made before it. \<open>None\<close> is a call that has
  not returned within the given number of steps.
\<close>

type_synonym 'a outcome = "((error + 'a) \<times> state) option"

definition and_then :: "'a outcome \<Rightarrow> ('a \<Rightarrow> state \<Rightarrow> 'b outcome) \<Rightarrow> 'b outcome" where
  "and_then m f =
     (case m of
        None \<Rightarrow> None
      | Some (Inl e, s) \<Rightarrow> Some (Inl e, s)
      | Some (Inr x, s) \<Rightarrow> f x s)"

definition raise :: "error \<Rightarrow> state \<Rightarrow> 'a outcome" where
  "raise e s = Some (Inl e, s)"

definition return :: "'a \<Rightarrow> state \<Rightarrow> 'a outcome" where
  "return x s = Some (Inr x, s)"

section \<open>The interpreter's stack\<close>

text \<open>
  The interpreter bounds the number of frames on its stack, and a call of a Python
  function that would exceed the bound raises \<^verbatim>\<open>RecursionError\<close> in the caller. Every
  function below therefore takes, next to the number of steps, the number \<open>d\<close> of
  frames that may still be pushed on top of its own frame. \<open>call d s f\<close> is a call made
  in state \<open>s\<close> by a function with \<open>d\<close> frames left: the callee \<open>f\<close> runs with one frame
  less. A loop runs in the frame of its function and uses no frame. Built-in functions
  (\<^verbatim>\<open>isinstance\<close>, \<^verbatim>\<open>print\<close>, \<^verbatim>\<open>repr\<close> of a \<^verbatim>\<open>str\<close>, an \<^verbatim>\<open>int\<close>, a \<^verbatim>\<open>list\<close>) push no frame
  of their own.
\<close>

definition call :: "nat \<Rightarrow> state \<Rightarrow> (nat \<Rightarrow> 'a outcome) \<Rightarrow> 'a outcome" where
  "call d s f = (case d of 0 \<Rightarrow> raise RecursionError s | Suc d' \<Rightarrow> f d')"

section \<open>Helpers of both evaluators\<close>

fun is_Str :: "expr \<Rightarrow> bool" where
  "is_Str (Str _) = True"
| "is_Str _ = False"

fun is_Int :: "expr \<Rightarrow> bool" where
  "is_Int (Int' _) = True"
| "is_Int _ = False"

fun is_Table :: "expr \<Rightarrow> bool" where
  "is_Table (Table _) = True"
| "is_Table _ = False"

text \<open>
  \<^verbatim>\<open>key.value == item_key.value\<close> on the nodes that reach the comparison (\<^verbatim>\<open>Str\<close> or
  \<^verbatim>\<open>Int\<close>): a Python \<^verbatim>\<open>str\<close> never equals an \<^verbatim>\<open>int\<close>.
\<close>

fun value_eq :: "expr \<Rightarrow> expr \<Rightarrow> bool" where
  "value_eq (Str a) (Str b) = (a = b)"
| "value_eq (Int' a) (Int' b) = (a = b)"
| "value_eq _ _ = False"

section \<open>\<^verbatim>\<open>evaluator.py\<close>\<close>

subsection \<open>\<^verbatim>\<open>__repr__\<close> and \<^verbatim>\<open>print\<close>\<close>

text \<open>
  The scan of \<^verbatim>\<open>_evaluate_ref\<close> prints the key, the entry key and the table at every
  entry. \<^verbatim>\<open>print\<close> converts each argument with its \<^verbatim>\<open>__repr__\<close>, a Python function:

    \<^item> \<^verbatim>\<open>Str\<close>, \<^verbatim>\<open>Bool\<close>, \<^verbatim>\<open>Int\<close>, \<^verbatim>\<open>Float\<close> return the \<^verbatim>\<open>repr\<close> of their value: one frame;
    \<^item> \<^verbatim>\<open>Ref.__repr__\<close> returns \<^verbatim>\<open>repr(self._cache)\<close>: one frame, and the \<^verbatim>\<open>repr\<close> of the
      cache inside it, so a chain of caches that comes back to a reference on it never
      ends and fills the stack;
    \<^item> \<^verbatim>\<open>Table.__repr__\<close> returns \<^verbatim>\<open>repr(self.items)\<close>: one frame, and the \<^verbatim>\<open>repr\<close> of a
      list, which prints \<^verbatim>\<open>[...]\<close> for a list that is already being printed;
    \<^item> \<^verbatim>\<open>TableItem\<close>, \<^verbatim>\<open>Unary\<close>, \<^verbatim>\<open>Binary\<close> and \<^verbatim>\<open>Array\<close> define no \<^verbatim>\<open>__repr__\<close>, so
      \<^verbatim>\<open>@dataclass\<close> generates one: a guard that prints \<^verbatim>\<open>...\<close> for an object that is
      already being printed, around a function that prints every field: two frames. The
      fields of a \<^verbatim>\<open>TableItem\<close> are \<^verbatim>\<open>key\<close>, \<^verbatim>\<open>value\<close> and \<^verbatim>\<open>parent\<close>; among the fields of a
      \<^verbatim>\<open>Unary\<close> or \<^verbatim>\<open>Binary\<close> is \<^verbatim>\<open>op\<close>, a member of an \<^verbatim>\<open>Enum\<close>, whose \<^verbatim>\<open>__repr__\<close> takes a
      frame; their \<^verbatim>\<open>_cache\<close> and \<^verbatim>\<open>_evaluated\<close> fields are never assigned.

  \<open>repr_ok d seen seen_items s e\<close> tells whether \<^verbatim>\<open>repr(e)\<close> returns when \<open>d\<close> frames are
  left; otherwise it raises \<^verbatim>\<open>RecursionError\<close>. \<open>seen\<close> and \<open>seen_items\<close> are the nodes
  and entries being printed. The guards of Python go by the identity of the object;
  here an object is identified with its value. What is written to standard output is
  not part of the model.
\<close>

fun repr_ok :: "nat \<Rightarrow> expr list \<Rightarrow> table_item list \<Rightarrow> state \<Rightarrow> expr \<Rightarrow> bool"
  and repr_item_ok :: "nat \<Rightarrow> expr list \<Rightarrow> table_item list \<Rightarrow> state \<Rightarrow> table_item \<Rightarrow> bool"
where
  "repr_ok 0 seen seen_items s e = False"
| "repr_ok (Suc d) seen seen_items s e =
     (case e of
        Ref i ks m \<Rightarrow>
          (case cache (s i) of
             None \<Rightarrow> True
           | Some c \<Rightarrow> repr_ok d seen seen_items s c)
      | Table items \<Rightarrow>
          e \<in> set seen \<or> list_all (repr_item_ok d (e # seen) seen_items s) items
      | Array items \<Rightarrow>
          e \<in> set seen \<or>
          (case d of
             0 \<Rightarrow> False
           | Suc d' \<Rightarrow> list_all (repr_ok d' (e # seen) seen_items s) items)
      | Unary op right \<Rightarrow>
          e \<in> set seen \<or>
          (case d of
             0 \<Rightarrow> False
           | Suc d' \<Rightarrow> 0 < d' \<and> repr_ok d' (e # seen) seen_items s right)
      | Binary left op right \<Rightarrow>
          e \<in> set seen \<or>
          (case d of
             0 \<Rightarrow> False
           | Suc d' \<Rightarrow>
               0 < d' \<and> repr_ok d' (e # seen) seen_items s left \<and>
               repr_ok d' (e # seen) seen_items s right)
      | _ \<Rightarrow> True)"
| "repr_item_ok 0 seen seen_items s it = False"
| "repr_item_ok (Suc d) seen seen_items s it =
     (it \<in> set seen_items \<or>
      (case d of
         0 \<Rightarrow> False
       | Suc d' \<Rightarrow>
           repr_ok d' seen (it # seen_items) s (key it) \<and>
           repr_ok d' seen (it # seen_items) s (val it) \<and>
           (case item_parent it of
              None \<Rightarrow> True
            | Some q \<Rightarrow> repr_ok d' seen (it # seen_items) s q)))"

text \<open>
  The arguments of a \<^verbatim>\<open>print\<close> that can be printed with \<open>d\<close> frames left; \<^verbatim>\<open>None\<close> takes no
  frame.
\<close>

definition printable :: "nat \<Rightarrow> state \<Rightarrow> expr option list \<Rightarrow> bool" where
  "printable d s args =
     list_all (\<lambda>a. case a of None \<Rightarrow> True | Some e \<Rightarrow> repr_ok d [] [] s e) args"

definition print :: "nat \<Rightarrow> expr option list \<Rightarrow> state \<Rightarrow> unit outcome" where
  "print d args s = (if printable d s args then return () s else raise RecursionError s)"

subsection \<open>\<^verbatim>\<open>Evaluator._resolve\<close>\<close>

fun resolve :: "nat \<Rightarrow> expr option \<Rightarrow> expr \<Rightarrow> state \<Rightarrow> unit outcome"
  and resolve_array :: "nat \<Rightarrow> expr option \<Rightarrow> expr list \<Rightarrow> state \<Rightarrow> unit outcome"
  and resolve_items :: "nat \<Rightarrow> expr \<Rightarrow> table_item list \<Rightarrow> state \<Rightarrow> unit outcome"
  and resolve_item :: "nat \<Rightarrow> expr \<Rightarrow> table_item \<Rightarrow> state \<Rightarrow> unit outcome"
where
  "resolve d p (Str _) s = return () s"
| "resolve d p (Bool _) s = return () s"
| "resolve d p (Int' _) s = return () s"
| "resolve d p (Float _) s = return () s"
| "resolve d p (Ref i ks m) s = return () (s(i := (s i)\<lparr>parent := p\<rparr>))"
| "resolve d p (Unary _ right) s = call d s (\<lambda>d'. resolve d' p right s)"
| "resolve d p (Binary left _ right) s =
     and_then (call d s (\<lambda>d'. resolve d' p left s)) (\<lambda>_ s1.
       call d s1 (\<lambda>d'. resolve d' p right s1))"
| "resolve d p (Array items) s = resolve_array d p items s"
| "resolve d p (Table items) s = resolve_items d (Table items) items s"
| "resolve_array d p [] s = return () s"
| "resolve_array d p (x # xs) s =
     and_then (call d s (\<lambda>d'. resolve d' p x s)) (\<lambda>_ s1. resolve_array d p xs s1)"
| "resolve_items d e [] s = return () s"
| "resolve_items d e (it # its) s =
     and_then (resolve_item d e it s) (\<lambda>_ s1. resolve_items d e its s1)"
| "resolve_item d e (TableItem k v ip) s =
     and_then (call d s (\<lambda>d'. resolve d' (Some e) k s)) (\<lambda>_ s1.
       and_then (call d s1 (\<lambda>d'. resolve d' (Some e) v s1)) (\<lambda>_ s2.
         case ip of
           None \<Rightarrow> return () s2
         | Some q \<Rightarrow> call d s2 (\<lambda>d'. resolve d' (Some e) q s2)))"

subsection \<open>\<^verbatim>\<open>Evaluator._evaluate\<close> and the functions it calls\<close>

text \<open>
  Every function takes the number of steps it may still make (each call and each loop
  iteration uses one) and the number of frames left. \<open>root\<close> is \<^verbatim>\<open>self._expr\<close>. The scan
  of a table threads the three locals it assigns: \<^verbatim>\<open>found\<close>, \<^verbatim>\<open>current\<close>, and \<^verbatim>\<open>item_key\<close>,
  which is \<open>None\<close> as long as no assignment to it has been made in this call of
  \<^verbatim>\<open>_evaluate_ref\<close>. The \<^verbatim>\<open>print\<close> of the handler and the two after it are outside the
  \<^verbatim>\<open>try\<close>: a \<^verbatim>\<open>RecursionError\<close> of theirs leaves the scan.
\<close>

function evaluate_expr :: "nat \<Rightarrow> nat \<Rightarrow> expr \<Rightarrow> expr \<Rightarrow> state \<Rightarrow> unit outcome"
  and evaluate_ref ::
    "nat \<Rightarrow> nat \<Rightarrow> expr \<Rightarrow> ref_id \<Rightarrow> expr list \<Rightarrow> RefModifier \<Rightarrow> state \<Rightarrow> unit outcome"
  and evaluate_ref_keys ::
    "nat \<Rightarrow> nat \<Rightarrow> expr \<Rightarrow> expr list \<Rightarrow> expr option \<Rightarrow> expr option \<Rightarrow> state
      \<Rightarrow> (expr option \<times> expr option) outcome"
  and evaluate_ref_items ::
    "nat \<Rightarrow> nat \<Rightarrow> expr \<Rightarrow> expr \<Rightarrow> table_item list \<Rightarrow> expr option \<Rightarrow> expr option \<Rightarrow> state
      \<Rightarrow> (bool \<times> expr option \<times> expr option) outcome"
  and evaluate_key :: "nat \<Rightarrow> nat \<Rightarrow> expr \<Rightarrow> expr \<Rightarrow> state \<Rightarrow> expr outcome"
  and evaluate_table :: "nat \<Rightarrow> nat \<Rightarrow> expr \<Rightarrow> table_item list \<Rightarrow> state \<Rightarrow> unit outcome"
where
  "evaluate_expr 0 d root e s = None"
| "evaluate_expr (Suc n) d root e s =
     (case e of
        Ref i ks m \<Rightarrow> call d s (\<lambda>d'. evaluate_ref n d' root i ks m s)
      | Unary _ _ \<Rightarrow> raise NotImplementedError s
      | Binary _ _ _ \<Rightarrow> raise NotImplementedError s
      | Array _ \<Rightarrow> raise NotImplementedError s
      | Table items \<Rightarrow> call d s (\<lambda>d'. evaluate_table n d' root items s)
      | _ \<Rightarrow> return () s)"

| "evaluate_ref 0 d root i ks m s = None"
| "evaluate_ref (Suc n) d root i ks m s =
     (if evaluated (s i) then return () s
      else
        let s1 = s(i := (s i)\<lparr>evaluated := True\<rparr>);
            current = (if m = ABSOLUTE then Some root else parent (s1 i))
        in and_then (evaluate_ref_keys n d root ks current None s1)
             (\<lambda>(current', _) s2. return () (s2(i := (s2 i)\<lparr>cache := current'\<rparr>))))"

| "evaluate_ref_keys 0 d root ks current item_key s = None"
| "evaluate_ref_keys (Suc n) d root ks current item_key s =
     (case ks of
        [] \<Rightarrow> return (current, item_key) s
      | k # ks' \<Rightarrow>
          and_then (call d s (\<lambda>d'. evaluate_key n d' root k s)) (\<lambda>key' s1.
            case current of
              Some (Array _) \<Rightarrow> raise NotImplementedError s1
            | Some (Table items) \<Rightarrow>
                and_then (evaluate_ref_items n d root key' items current item_key s1)
                  (\<lambda>(found, current', item_key') s2.
                     if \<not> found then
                       (case item_key' of
                          None \<Rightarrow> raise (UnboundLocalError ''item_key'') s2
                        | Some ik \<Rightarrow> raise (KeyError ''Key not found.'' key' ik) s2)
                     else evaluate_ref_keys n d root ks' current' item_key' s2)
            | _ \<Rightarrow> evaluate_ref_keys n d root ks' current item_key s1))"

| "evaluate_ref_items 0 d root key' its current item_key s = None"
| "evaluate_ref_items (Suc n) d root key' its current item_key s =
     (case its of
        [] \<Rightarrow> return (False, current, item_key) s
      | it # its' \<Rightarrow>
          (case call d s (\<lambda>d'. evaluate_key n d' root (key it) s) of
             None \<Rightarrow> None
           | Some (Inl e, s1) \<Rightarrow>
               if is_RuntimeError e \<or> is_TypeError e
               then and_then (print d [Some key', Some (key it), current] s1) (\<lambda>_ s2.
                      evaluate_ref_items n d root key' its' current item_key s2)
               else raise e s1
           | Some (Inr ik, s1) \<Rightarrow>
               if is_Str ik \<and> value_eq key' ik
               then and_then (print d [Some key', Some (key it), current] s1) (\<lambda>_ s2.
                      return (True, Some (val it), Some ik) s2)
               else and_then (print d [Some key', Some (key it), current] s1) (\<lambda>_ s2.
                      evaluate_ref_items n d root key' its' current (Some ik) s2)))"

| "evaluate_key 0 d root k s = None"
| "evaluate_key (Suc n) d root k s =
     (if is_Str k \<or> is_Int k then return k s
      else
        case k of
          Ref i ks m \<Rightarrow>
            and_then (call d s (\<lambda>d'. evaluate_expr n d' root k s)) (\<lambda>_ s1.
              case cache (s1 i) of
                None \<Rightarrow> raise (RuntimeError ''Failed to evaluate reference.'') s1
              | Some c \<Rightarrow> evaluate_key n d root c s1)
        | _ \<Rightarrow> raise (TypeError ''Expected string or integer for key.'') s)"

| "evaluate_table 0 d root its s = None"
| "evaluate_table (Suc n) d root its s =
     (case its of
        [] \<Rightarrow> return () s
      | it # its' \<Rightarrow>
          and_then (call d s (\<lambda>d'. evaluate_expr n d' root (key it) s)) (\<lambda>_ s1.
            and_then (call d s1 (\<lambda>d'. evaluate_expr n d' root (val it) s1)) (\<lambda>_ s2.
              evaluate_table n d root its' s2)))"
  by pat_completeness auto
termination
  by (relation "measure (case_sum (case_sum fst (case_sum fst fst)) (case_sum fst (case_sum fst fst)))")
     auto

subsection \<open>\<^verbatim>\<open>Evaluator.evaluate\<close>\<close>

text \<open>\<open>d\<close> is the number of frames left on top of the frame of \<^verbatim>\<open>evaluate\<close> itself.\<close>

definition evaluate :: "nat \<Rightarrow> nat \<Rightarrow> expr \<Rightarrow> state \<Rightarrow> expr outcome" where
  "evaluate n d root s =
     (let p = (if is_Table root then Some root else None)
      in and_then (call d s (\<lambda>d'. resolve d' p root s)) (\<lambda>_ s1.
           and_then (call d s1 (\<lambda>d'. evaluate_expr n d' root root s1)) (\<lambda>_ s2.
             return root s2)))"

section \<open>\<^verbatim>\<open>evaluator2.py\<close>\<close>

text \<open>
  The second module declares no \<^verbatim>\<open>Unary\<close>, \<^verbatim>\<open>Binary\<close> or \<^verbatim>\<open>Array\<close>; its \<^verbatim>\<open>match\<close>
  statements have no arm for them, so on such a node they do nothing. Its functions
  carry the suffix \<open>2\<close>, except \<^verbatim>\<open>_unwrap\<close>, which only this module has. Its only \<^verbatim>\<open>print\<close>
  writes the string \<^verbatim>\<open>"HOT EXIT"\<close>, which takes no frame and leaves no trace in the
  state.
\<close>

subsection \<open>\<^verbatim>\<open>Evaluator._resolve\<close>\<close>

fun resolve2 :: "nat \<Rightarrow> expr option \<Rightarrow> expr \<Rightarrow> state \<Rightarrow> unit outcome"
  and resolve_items2 :: "nat \<Rightarrow> expr \<Rightarrow> table_item list \<Rightarrow> state \<Rightarrow> unit outcome"
  and resolve_item2 :: "nat \<Rightarrow> expr \<Rightarrow> table_item \<Rightarrow> state \<Rightarrow> unit outcome"
where
  "resolve2 d p (Ref i ks m) s = return () (s(i := (s i)\<lparr>parent := p\<rparr>))"
| "resolve2 d p (Table items) s = resolve_items2 d (Table items) items s"
| "resolve2 d p (Str _) s = return () s"
| "resolve2 d p (Bool _) s = return () s"
| "resolve2 d p (Int' _) s = return () s"
| "resolve2 d p (Float _) s = return () s"
| "resolve2 d p (Unary _ _) s = return () s"
| "resolve2 d p (Binary _ _ _) s = return () s"
| "resolve2 d p (Array _) s = return () s"
| "resolve_items2 d e [] s = return () s"
| "resolve_items2 d e (it # its) s =
     and_then (resolve_item2 d e it s) (\<lambda>_ s1. resolve_items2 d e its s1)"
| "resolve_item2 d e (TableItem k v ip) s =
     and_then (call d s (\<lambda>d'. resolve2 d' (Some e) k s)) (\<lambda>_ s1.
       and_then (call d s1 (\<lambda>d'. resolve2 d' (Some e) v s1)) (\<lambda>_ s2.
         case ip of
           None \<Rightarrow> return () s2
         | Some q \<Rightarrow> call d s2 (\<lambda>d'. resolve2 d' (Some e) q s2)))"

subsection \<open>\<^verbatim>\<open>Evaluator._evaluate\<close> and the functions it calls\<close>

function evaluate_expr2 :: "nat \<Rightarrow> nat \<Rightarrow> expr \<Rightarrow> expr \<Rightarrow> state \<Rightarrow> unit outcome"
  and evaluate_ref2 ::
    "nat \<Rightarrow> nat \<Rightarrow> expr \<Rightarrow> ref_id \<Rightarrow> expr list \<Rightarrow> RefModifier \<Rightarrow> state \<Rightarrow> unit outcome"
  and evaluate_ref_keys2 ::
    "nat \<Rightarrow> nat \<Rightarrow> expr \<Rightarrow> expr list \<Rightarrow> expr option \<Rightarrow> state \<Rightarrow> (expr option) outcome"
  and evaluate_ref_items2 ::
    "nat \<Rightarrow> nat \<Rightarrow> expr \<Rightarrow> expr \<Rightarrow> table_item list \<Rightarrow> expr option \<Rightarrow> state
      \<Rightarrow> (expr option) outcome"
  and unwrap :: "nat \<Rightarrow> nat \<Rightarrow> expr \<Rightarrow> expr \<Rightarrow> state \<Rightarrow> expr outcome"
  and evaluate_table2 :: "nat \<Rightarrow> nat \<Rightarrow> expr \<Rightarrow> table_item list \<Rightarrow> state \<Rightarrow> unit outcome"
where
  "evaluate_expr2 0 d root e s = None"
| "evaluate_expr2 (Suc n) d root e s =
     (case e of
        Ref i ks m \<Rightarrow> call d s (\<lambda>d'. evaluate_ref2 n d' root i ks m s)
      | Table items \<Rightarrow> call d s (\<lambda>d'. evaluate_table2 n d' root items s)
      | _ \<Rightarrow> return () s)"

| "evaluate_ref2 0 d root i ks m s = None"
| "evaluate_ref2 (Suc n) d root i ks m s =
     (if evaluated (s i) then return () s
      else
        let s1 = s(i := (s i)\<lparr>evaluated := True\<rparr>);
            current = (if m = ABSOLUTE then Some root else parent (s1 i))
        in and_then (evaluate_ref_keys2 n d root ks current s1)
             (\<lambda>current' s2. return () (s2(i := (s2 i)\<lparr>cache := current'\<rparr>))))"

| "evaluate_ref_keys2 0 d root ks current s = None"
| "evaluate_ref_keys2 (Suc n) d root ks current s =
     (case ks of
        [] \<Rightarrow> return current s
      | k # ks' \<Rightarrow>
          (case current of
             None \<Rightarrow> raise (TypeError ''NONE!'') s
           | Some cur \<Rightarrow>
               and_then (call d s (\<lambda>d'. unwrap n d' root cur s)) (\<lambda>curry s1.
                 and_then (call d s1 (\<lambda>d'. unwrap n d' root k s1)) (\<lambda>key' s2.
                   if \<not> is_Str key' then raise (TypeError ''Expect string key.'') s2
                   else
                     case curry of
                       Table items \<Rightarrow>
                         and_then (evaluate_ref_items2 n d root key' items current s2)
                           (\<lambda>current' s3. evaluate_ref_keys2 n d root ks' current' s3)
                     | _ \<Rightarrow> raise (TypeError ''Expect table.'') s2))))"

| "evaluate_ref_items2 0 d root key' its current s = None"
| "evaluate_ref_items2 (Suc n) d root key' its current s =
     (case its of
        [] \<Rightarrow> return current s
      | it # its' \<Rightarrow>
          (case call d s (\<lambda>d'. unwrap n d' root (key it) s) of
             None \<Rightarrow> None
           | Some (Inl e, s1) \<Rightarrow>
               if is_RuntimeError e
               then evaluate_ref_items2 n d root key' its' current s1
               else raise e s1
           | Some (Inr ik, s1) \<Rightarrow>
               if \<not> is_Str ik then raise (TypeError ''Expect string key for item.'') s1
               else if value_eq key' ik then return (Some (val it)) s1
               else evaluate_ref_items2 n d root key' its' current s1))"

| "unwrap 0 d root e s = None"
| "unwrap (Suc n) d root e s =
     (case e of
        Ref i ks m \<Rightarrow>
          and_then (call d s (\<lambda>d'. evaluate_expr2 n d' root e s)) (\<lambda>_ s1.
            case cache (s1 i) of
              None \<Rightarrow> raise (RuntimeError ''Failed to evaluate reference.'') s1
            | Some c \<Rightarrow> unwrap n d root c s1)
      | _ \<Rightarrow> return e s)"

| "evaluate_table2 0 d root its s = None"
| "evaluate_table2 (Suc n) d root its s =
     (case its of
        [] \<Rightarrow> return () s
      | it # its' \<Rightarrow>
          and_then (call d s (\<lambda>d'. evaluate_expr2 n d' root (key it) s)) (\<lambda>_ s1.
            and_then (call d s1 (\<lambda>d'. evaluate_expr2 n d' root (val it) s1)) (\<lambda>_ s2.
              evaluate_table2 n d root its' s2)))"
  by pat_completeness auto
termination
  by (relation "measure (case_sum (case_sum fst (case_sum fst fst)) (case_sum fst (case_sum fst fst)))")
     auto

subsection \<open>\<^verbatim>\<open>Evaluator.evaluate\<close>\<close>

definition evaluate2 :: "nat \<Rightarrow> nat \<Rightarrow> expr \<Rightarrow> state \<Rightarrow> expr outcome" where
  "evaluate2 n d root s =
     (let p = (if is_Table root then Some root else None)
      in and_then (call d s (\<lambda>d'. resolve2 d' p root s)) (\<lambda>_ s1.
           and_then (call d s1 (\<lambda>d'. evaluate_expr2 n d' root root s1)) (\<lambda>_ s2.
             return root s2)))"

section \<open>Observations and example documents\<close>

text \<open>What a run leaves in the \<^verbatim>\<open>cache\<close> fields of the listed references.\<close>

definition caches :: "ref_id list \<Rightarrow> 'a outcome \<Rightarrow> ((error + 'a) \<times> expr option list) option" where
  "caches ids out = map_option (\<lambda>(r, s). (r, map (\<lambda>i. cache (s i)) ids)) out"

fun is_Ref :: "expr \<Rightarrow> bool" where
  "is_Ref (Ref _ _ _) = True"
| "is_Ref _ = False"

text \<open>\<^verbatim>\<open>Table{ a: "1", r: Ref(["b"]) }\<close>: the reference names a key the table does not have.\<close>

definition doc_missing_key :: expr where
  "doc_missing_key =
     Table [TableItem (Str ''a'') (Str ''1'') None,
            TableItem (Str ''r'') (Ref 0 [Str ''b''] ABSOLUTE) None]"

text \<open>\<^verbatim>\<open>Table{ a: "1", r: Ref(["a", "c"]) }\<close>: the second segment indexes the string at \<^verbatim>\<open>a\<close>.\<close>

definition doc_index_scalar :: expr where
  "doc_index_scalar =
     Table [TableItem (Str ''a'') (Str ''1'') None,
            TableItem (Str ''r'') (Ref 0 [Str ''a'', Str ''c''] ABSOLUTE) None]"

text \<open>A relative reference as the whole document: there is no enclosing table.\<close>

definition doc_relative_root :: expr where
  "doc_relative_root = Ref 0 [Str ''a''] RELATIVE"

text \<open>\<^verbatim>\<open>Table{ a: Ref(["b"]), b: Ref(["c"]), c: "1" }\<close>: a reference to a reference.\<close>

definition doc_chain :: expr where
  "doc_chain =
     Table [TableItem (Str ''a'') (Ref 0 [Str ''b''] ABSOLUTE) None,
            TableItem (Str ''b'') (Ref 1 [Str ''c''] ABSOLUTE) None,
            TableItem (Str ''c'') (Str ''1'') None]"

text \<open>
  \<^verbatim>\<open>Table{ t: Ref(["u"]), u: Table{ b: Ref(["c"]) }, c: "1", r: Ref(["t", "b"]) }\<close>: the
  first segment of the last reference ends on a reference to a table, and the second
  looks up \<^verbatim>\<open>b\<close>, whose value is a reference again.
\<close>

definition doc_indirect_table :: expr where
  "doc_indirect_table =
     Table [TableItem (Str ''t'') (Ref 1 [Str ''u''] ABSOLUTE) None,
            TableItem (Str ''u'')
              (Table [TableItem (Str ''b'') (Ref 2 [Str ''c''] ABSOLUTE) None]) None,
            TableItem (Str ''c'') (Str ''1'') None,
            TableItem (Str ''r'') (Ref 0 [Str ''t'', Str ''b''] ABSOLUTE) None]"

text \<open>\<^verbatim>\<open>Table{ 1: "x", r: Ref([1]) }\<close>: an integer key looked up by the equal integer.\<close>

definition doc_int_key :: expr where
  "doc_int_key =
     Table [TableItem (Int' 1) (Str ''x'') None,
            TableItem (Str ''r'') (Ref 0 [Int' 1] ABSOLUTE) None]"

text \<open>
  \<^verbatim>\<open>Table{ True: "x", a: "y", r: Ref(["a"]) }\<close>: a sibling key of a type that is no key,
  before the entry that matches.
\<close>

definition doc_bool_sibling :: expr where
  "doc_bool_sibling =
     Table [TableItem (Bool True) (Str ''x'') None,
            TableItem (Str ''a'') (Str ''y'') None,
            TableItem (Str ''r'') (Ref 0 [Str ''a''] ABSOLUTE) None]"

text \<open>
  \<^verbatim>\<open>Table{ r: Ref(["a"]), Ref(["zzz"]): "x", a: "y" }\<close>: a sibling key that is a reference to
  a missing key, before the entry that matches.
\<close>

definition doc_dangling_sibling :: expr where
  "doc_dangling_sibling =
     Table [TableItem (Str ''r'') (Ref 0 [Str ''a''] ABSOLUTE) None,
            TableItem (Ref 1 [Str ''zzz''] ABSOLUTE) (Str ''x'') None,
            TableItem (Str ''a'') (Str ''y'') None]"

text \<open>
  \<^verbatim>\<open>Table{ True: "x", b: "y", s: Ref(["s"]), r: Ref(["b"]) }\<close>: the reference at \<^verbatim>\<open>s\<close> gets
  itself as its cache, and the scan for \<^verbatim>\<open>b\<close> then prints the table at the first entry,
  whose key fails to unwrap.
\<close>

definition doc_self_cached :: expr where
  "doc_self_cached =
     Table [TableItem (Bool True) (Str ''x'') None,
            TableItem (Str ''b'') (Str ''y'') None,
            TableItem (Str ''s'') (Ref 0 [Str ''s''] ABSOLUTE) None,
            TableItem (Str ''r'') (Ref 1 [Str ''b''] ABSOLUTE) None]"

text \<open>
  \<^verbatim>\<open>Table{ Ref(["x"]): "v", x: "k" }\<close>: resolving the key of the first entry scans the table
  and so comes back to that very key.
\<close>

definition doc_reentry :: expr where
  "doc_reentry =
     Table [TableItem (Ref 0 [Str ''x''] ABSOLUTE) (Str ''v'') None,
            TableItem (Str ''x'') (Str ''k'') None]"

text \<open>
  The state in which reference 0 of \<open>doc_reentry\<close> has its parent, has been entered and
  is not finished.
\<close>

definition in_progress :: state where
  "in_progress = fresh(0 := \<lparr>parent = Some doc_reentry, cache = None, evaluated = True\<rparr>)"

text \<open>
  \<^verbatim>\<open>Table{ Ref(["a"]): "v", a: Ref(["a"]), z: Ref(["a"]) }\<close>: the reference that is the
  first key gets the reference at \<^verbatim>\<open>a\<close> as its cache, and that one gets itself. The scan
  of the reference at \<^verbatim>\<open>z\<close> then unwraps the first key through these caches.
\<close>

definition doc_cache_cycle :: expr where
  "doc_cache_cycle =
     Table [TableItem (Ref 0 [Str ''a''] ABSOLUTE) (Str ''v'') None,
            TableItem (Str ''a'') (Ref 1 [Str ''a''] ABSOLUTE) None,
            TableItem (Str ''z'') (Ref 2 [Str ''a''] ABSOLUTE) None]"

text \<open>\<^verbatim>\<open>Table{ Ref(["b"]): "v" }\<close>: the only key of the table is the reference being resolved.\<close>

definition doc_unbound :: expr where
  "doc_unbound = Table [TableItem (Ref 0 [Str ''b''] ABSOLUTE) (Str ''v'') None]"

text \<open>
  \<^verbatim>\<open>Table{ a: "b", b: "k", r: Ref(["k"]), Ref([Ref(["a"])]): "first", k: "second" }\<close>:
  the key of the fourth entry unwraps to \<^verbatim>\<open>"k"\<close> through two nested references, which are
  first met by the scan of the reference at \<^verbatim>\<open>r\<close>.
\<close>

definition doc_nested_key :: expr where
  "doc_nested_key =
     Table [TableItem (Str ''a'') (Str ''b'') None,
            TableItem (Str ''b'') (Str ''k'') None,
            TableItem (Str ''r'') (Ref 0 [Str ''k''] ABSOLUTE) None,
            TableItem (Ref 1 [Ref 2 [Str ''a''] ABSOLUTE] ABSOLUTE) (Str ''first'') None,
            TableItem (Str ''k'') (Str ''second'') None]"

section \<open>Notions used by the properties\<close>

text \<open>
  A key that \<^verbatim>\<open>_evaluate_key\<close> cannot unwrap in state \<open>s\<close> without evaluating anything: a
  reference whose flag is set and whose cache is absent (it is being resolved, or its
  resolution has failed), or a node that is neither a reference nor a \<^verbatim>\<open>Str\<close> or \<^verbatim>\<open>Int\<close>.
\<close>

definition broken :: "state \<Rightarrow> expr \<Rightarrow> bool" where
  "broken s e =
     (case e of
        Ref i ks m \<Rightarrow> evaluated (s i) \<and> cache (s i) = None
      | Str _ \<Rightarrow> False
      | Int' _ \<Rightarrow> False
      | _ \<Rightarrow> True)"

text \<open>The keys on which \<^verbatim>\<open>_unwrap\<close> raises \<^verbatim>\<open>RuntimeError\<close> without evaluating anything.\<close>

definition broken2 :: "state \<Rightarrow> expr \<Rightarrow> bool" where
  "broken2 s e =
     (case e of
        Ref i ks m \<Rightarrow> evaluated (s i) \<and> cache (s i) = None
      | _ \<Rightarrow> False)"

text \<open>
  The entries \<open>its\<close> do not match the string \<open>a\<close>, in \<^verbatim>\<open>evaluator.py\<close>: taken in order from
  state \<open>s\<close>, with \<open>m\<close> steps for each key and \<open>d\<close> frames left, the key of each entry
  either fails to unwrap with an error that the scan catches, or unwraps to a node other
  than \<open>Str a\<close>; and what the scan prints at the entry can be printed. The result is the
  state after the last of them.
\<close>

fun passes ::
  "nat \<Rightarrow> nat \<Rightarrow> expr \<Rightarrow> string \<Rightarrow> expr option \<Rightarrow> table_item list \<Rightarrow> state \<Rightarrow> state option"
where
  "passes m d root a cur [] s = Some s"
| "passes m d root a cur (it # its) s =
     (case call d s (\<lambda>d'. evaluate_key m d' root (key it) s) of
        None \<Rightarrow> None
      | Some (Inl e, s1) \<Rightarrow>
          if (is_RuntimeError e \<or> is_TypeError e) \<and>
             printable d s1 [Some (Str a), Some (key it), cur]
          then passes m d root a cur its s1 else None
      | Some (Inr k, s1) \<Rightarrow>
          if k \<noteq> Str a \<and> printable d s1 [Some (Str a), Some (key it), cur]
          then passes m d root a cur its s1 else None)"

text \<open>
  The same in \<^verbatim>\<open>evaluator2.py\<close>: the key of each entry either fails to unwrap with a
  \<^verbatim>\<open>RuntimeError\<close>, or unwraps to a string other than \<open>a\<close>. Nothing is printed.
\<close>

fun passes2 ::
  "nat \<Rightarrow> nat \<Rightarrow> expr \<Rightarrow> string \<Rightarrow> table_item list \<Rightarrow> state \<Rightarrow> state option"
where
  "passes2 m d root a [] s = Some s"
| "passes2 m d root a (it # its) s =
     (case call d s (\<lambda>d'. unwrap m d' root (key it) s) of
        None \<Rightarrow> None
      | Some (Inl e, s1) \<Rightarrow> if is_RuntimeError e then passes2 m d root a its s1 else None
      | Some (Inr k, s1) \<Rightarrow>
          (case k of
             Str b \<Rightarrow> if b \<noteq> a then passes2 m d root a its s1 else None
           | _ \<Rightarrow> None))"

text \<open>
  What an evaluation may do to the state: it never assigns \<^verbatim>\<open>parent\<close> and never clears
  \<^verbatim>\<open>evaluated\<close>.
\<close>

definition extends :: "state \<Rightarrow> state \<Rightarrow> bool" where
  "extends s t = (\<forall>j. parent (t j) = parent (s j) \<and> (evaluated (s j) \<longrightarrow> evaluated (t j)))"

definition grows :: "state \<Rightarrow> 'a outcome \<Rightarrow> bool" where
  "grows s out = (case out of None \<Rightarrow> True | Some (_, t) \<Rightarrow> extends s t)"

text \<open>
  The assignments that \<^verbatim>\<open>_resolve\<close> makes when the stack suffices for it, as a function of
  the state: \<open>assign_parents\<close> for \<^verbatim>\<open>evaluator.py\<close>, \<open>assign_parents2\<close> for \<^verbatim>\<open>evaluator2.py\<close>.
\<close>

fun assign_parents :: "expr option \<Rightarrow> expr \<Rightarrow> state \<Rightarrow> state"
  and assign_parents_array :: "expr option \<Rightarrow> expr list \<Rightarrow> state \<Rightarrow> state"
  and assign_parents_items :: "expr \<Rightarrow> table_item list \<Rightarrow> state \<Rightarrow> state"
  and assign_parents_item :: "expr \<Rightarrow> table_item \<Rightarrow> state \<Rightarrow> state"
where
  "assign_parents p (Str _) s = s"
| "assign_parents p (Bool _) s = s"
| "assign_parents p (Int' _) s = s"
| "assign_parents p (Float _) s = s"
| "assign_parents p (Ref i ks m) s = s(i := (s i)\<lparr>parent := p\<rparr>)"
| "assign_parents p (Unary _ right) s = assign_parents p right s"
| "assign_parents p (Binary left _ right) s = assign_parents p right (assign_parents p left s)"
| "assign_parents p (Array items) s = assign_parents_array p items s"
| "assign_parents p (Table items) s = assign_parents_items (Table items) items s"
| "assign_parents_array p [] s = s"
| "assign_parents_array p (x # xs) s = assign_parents_array p xs (assign_parents p x s)"
| "assign_parents_items e [] s = s"
| "assign_parents_items e (it # its) s = assign_parents_items e its (assign_parents_item e it s)"
| "assign_parents_item e (TableItem k v ip) s =
     (let s1 = assign_parents (Some e) k s;
          s2 = assign_parents (Some e) v s1
      in case ip of None \<Rightarrow> s2 | Some q \<Rightarrow> assign_parents (Some e) q s2)"

fun assign_parents2 :: "expr option \<Rightarrow> expr \<Rightarrow> state \<Rightarrow> state"
  and assign_parents_items2 :: "expr \<Rightarrow> table_item list \<Rightarrow> state \<Rightarrow> state"
  and assign_parents_item2 :: "expr \<Rightarrow> table_item \<Rightarrow> state \<Rightarrow> state"
where
  "assign_parents2 p (Ref i ks m) s = s(i := (s i)\<lparr>parent := p\<rparr>)"
| "assign_parents2 p (Table items) s = assign_parents_items2 (Table items) items s"
| "assign_parents2 p (Str _) s = s"
| "assign_parents2 p (Bool _) s = s"
| "assign_parents2 p (Int' _) s = s"
| "assign_parents2 p (Float _) s = s"
| "assign_parents2 p (Unary _ _) s = s"
| "assign_parents2 p (Binary _ _ _) s = s"
| "assign_parents2 p (Array _) s = s"
| "assign_parents_items2 e [] s = s"
| "assign_parents_items2 e (it # its) s = assign_parents_items2 e its (assign_parents_item2 e it s)"
| "assign_parents_item2 e (TableItem k v ip) s =
     (let s1 = assign_parents2 (Some e) k s;
          s2 = assign_parents2 (Some e) v s1
      in case ip of None \<Rightarrow> s2 | Some q \<Rightarrow> assign_parents2 (Some e) q s2)"

text \<open>
  \<open>f\<close> makes the assignments \<open>g\<close>: if \<open>f\<close> returns from some state, it returns from every
  state, and the state it leaves is \<open>g\<close> of the one it started from.
\<close>

definition assigns :: "(state \<Rightarrow> unit outcome) \<Rightarrow> (state \<Rightarrow> state) \<Rightarrow> bool" where
  "assigns f g = ((\<exists>s t. f s = Some (Inr (), t)) \<longrightarrow> (\<forall>s. f s = Some (Inr (), g s)))"

text \<open>
  What these assignments may do to the state: they leave \<^verbatim>\<open>cache\<close> and \<^verbatim>\<open>evaluated\<close>
  alone, and the \<^verbatim>\<open>parent\<close> of a reference is either left alone or set to a value that
  does not depend on the state.
\<close>

definition touch :: "(state \<Rightarrow> state) \<Rightarrow> bool" where
  "touch f =
     (\<forall>j. (\<forall>s. cache (f s j) = cache (s j) \<and> evaluated (f s j) = evaluated (s j)) \<and>
          ((\<forall>s. parent (f s j) = parent (s j)) \<or> (\<exists>c. \<forall>s. parent (f s j) = c)))"

text \<open>
  The \<^verbatim>\<open>Str\<close> or \<^verbatim>\<open>Int\<close> reached from \<open>e\<close> through the caches of at most \<open>k\<close> references
  that have been evaluated.
\<close>

fun walk :: "state \<Rightarrow> nat \<Rightarrow> expr \<Rightarrow> expr option" where
  "walk s 0 e = (if is_Str e \<or> is_Int e then Some e else None)"
| "walk s (Suc k) e =
     (if is_Str e \<or> is_Int e then Some e
      else
        case e of
          Ref i ks m \<Rightarrow>
            (if evaluated (s i)
             then (case cache (s i) of None \<Rightarrow> None | Some c \<Rightarrow> walk s k c)
             else None)
        | _ \<Rightarrow> None)"

text \<open>The state that evaluating \<open>doc_chain\<close> with \<^verbatim>\<open>evaluator.py\<close> leaves.\<close>

definition chain_evaluated :: state where
  "chain_evaluated =
     (case evaluate 20 20 doc_chain fresh of Some (_, s) \<Rightarrow> s | None \<Rightarrow> fresh)"

text \<open>The same for \<^verbatim>\<open>evaluator2.py\<close>.\<close>

definition chain_evaluated2 :: state where
  "chain_evaluated2 =
     (case evaluate2 20 20 doc_chain fresh of Some (_, s) \<Rightarrow> s | None \<Rightarrow> fresh)"

text \<open>The entries of \<^verbatim>\<open>Table{ a: "1", b: "first", b: "second" }\<close>: the key \<^verbatim>\<open>b\<close> occurs twice.\<close>

definition shadowed_entries :: "table_item list" where
  "shadowed_entries =
     [TableItem (Str ''a'') (Str ''1'') None,
      TableItem (Str ''b'') (Str ''first'') None,
      TableItem (Str ''b'') (Str ''second'') None]"

section \<open>Unfolding the evaluators\<close>

text \<open>
  The defining equations are applied by name, never by default: a step of an evaluator
  is unfolded where a proof says so.
\<close>

declare evaluate_expr.simps [simp del] evaluate_ref.simps [simp del]
  evaluate_ref_keys.simps [simp del] evaluate_ref_items.simps [simp del]
  evaluate_key.simps [simp del] evaluate_table.simps [simp del]

declare evaluate_expr2.simps [simp del] evaluate_ref2.simps [simp del]
  evaluate_ref_keys2.simps [simp del] evaluate_ref_items2.simps [simp del]
  unwrap.simps [simp del] evaluate_table2.simps [simp del]

lemmas evaluator_simps =
  evaluate_expr.simps evaluate_ref.simps evaluate_ref_keys.simps evaluate_ref_items.simps
  evaluate_key.simps evaluate_table.simps

lemmas evaluator2_simps =
  evaluate_expr2.simps evaluate_ref2.simps evaluate_ref_keys2.simps evaluate_ref_items2.simps
  unwrap.simps evaluate_table2.simps

lemmas outcome_defs = and_then_def return_def raise_def

lemmas run_defs =
  evaluator_simps evaluator2_simps evaluate_def evaluate2_def fresh_def outcome_defs
  call_def print_def printable_def caches_def eval_nat_numeral Let_def

section \<open>More steps, same outcome\<close>

text \<open>
  The number of steps only decides whether a call has returned yet: a call that returns
  or raises within \<open>n\<close> steps does the same, with the same state, within any larger
  number. (The number of frames is another matter: with more frames a call may
  do something else, see the last section.)
\<close>

lemma and_then_more:
  assumes "and_then a f = Some r"
    and "\<And>x. a = Some x \<Longrightarrow> a' = Some x"
    and "\<And>x s. a = Some (Inr x, s) \<Longrightarrow> f x s = Some r \<Longrightarrow> f' x s = Some r"
  shows "and_then a' f' = Some r"
proof (cases a)
  case None
  with assms(1) show ?thesis by (simp add: and_then_def)
next
  case (Some p)
  obtain res s where p: "p = (res, s)" by (cases p)
  from assms(2) Some have a': "a' = Some p" by simp
  show ?thesis
  proof (cases res)
    case (Inl e)
    with assms(1) Some p a' show ?thesis by (simp add: and_then_def)
  next
    case (Inr x)
    with assms(1) Some p have "f x s = Some r" by (simp add: and_then_def)
    with assms(3) Some p Inr have "f' x s = Some r" by simp
    with a' p Inr show ?thesis by (simp add: and_then_def)
  qed
qed

lemma call_more:
  assumes "call d s f = Some r"
    and "\<And>d'. f d' = Some r \<Longrightarrow> g d' = Some r"
  shows "call d s g = Some r"
  using assms by (cases d) (simp_all add: call_def)

lemma call_Suc [simp]: "call (Suc d) s f = f d"
  by (simp add: call_def)

lemma call_0 [simp]: "call 0 s f = raise RecursionError s"
  by (simp add: call_def)

lemma more_steps:
  "(\<forall>d root e s r. evaluate_expr n d root e s = Some r \<longrightarrow> evaluate_expr (n + k) d root e s = Some r) \<and>
   (\<forall>d root i ks m s r. evaluate_ref n d root i ks m s = Some r
      \<longrightarrow> evaluate_ref (n + k) d root i ks m s = Some r) \<and>
   (\<forall>d root ks cur ik s r. evaluate_ref_keys n d root ks cur ik s = Some r
      \<longrightarrow> evaluate_ref_keys (n + k) d root ks cur ik s = Some r) \<and>
   (\<forall>d root a its cur ik s r. evaluate_ref_items n d root a its cur ik s = Some r
      \<longrightarrow> evaluate_ref_items (n + k) d root a its cur ik s = Some r) \<and>
   (\<forall>d root e s r. evaluate_key n d root e s = Some r \<longrightarrow> evaluate_key (n + k) d root e s = Some r) \<and>
   (\<forall>d root its s r. evaluate_table n d root its s = Some r
      \<longrightarrow> evaluate_table (n + k) d root its s = Some r)"
proof (induction n)
  case 0
  show ?case by (simp add: evaluator_simps)
next
  case (Suc n)
  note IH1 = Suc.IH [THEN conjunct1, rule_format]
    and IH2 = Suc.IH [THEN conjunct2, THEN conjunct1, rule_format]
    and IH3 = Suc.IH [THEN conjunct2, THEN conjunct2, THEN conjunct1, rule_format]
    and IH4 = Suc.IH [THEN conjunct2, THEN conjunct2, THEN conjunct2, THEN conjunct1, rule_format]
    and IH5 = Suc.IH [THEN conjunct2, THEN conjunct2, THEN conjunct2, THEN conjunct2, THEN conjunct1,
                      rule_format]
    and IH6 = Suc.IH [THEN conjunct2, THEN conjunct2, THEN conjunct2, THEN conjunct2, THEN conjunct2,
                      rule_format]
  have c1: "call d s (\<lambda>d'. evaluate_expr (n + k) d' root e s) = Some r"
    if "call d s (\<lambda>d'. evaluate_expr n d' root e s) = Some r" for d root e s r
    using that by (rule call_more) (rule IH1)
  have c5: "call d s (\<lambda>d'. evaluate_key (n + k) d' root e s) = Some r"
    if "call d s (\<lambda>d'. evaluate_key n d' root e s) = Some r" for d root e s r
    using that by (rule call_more) (rule IH5)
  have 1: "evaluate_expr (Suc n + k) d root e s = Some r"
    if "evaluate_expr (Suc n) d root e s = Some r" for d root e s r
    using that by (cases e) (auto simp: evaluate_expr.simps dest: IH2 IH6 elim!: call_more)
  have 2: "evaluate_ref (Suc n + k) d root i ks m s = Some r"
    if "evaluate_ref (Suc n) d root i ks m s = Some r" for d root i ks m s r
    using that
    by (auto simp: evaluate_ref.simps Let_def dest: IH3 elim!: and_then_more split: if_splits)
  have 3: "evaluate_ref_keys (Suc n + k) d root ks cur ik s = Some r"
    if run: "evaluate_ref_keys (Suc n) d root ks cur ik s = Some r" for d root ks cur ik s r
  proof (cases ks)
    case Nil
    with run show ?thesis by (simp add: evaluate_ref_keys.simps)
  next
    case (Cons e ks')
    have rest: "evaluate_ref_keys (n + k) d root ks' c j t = Some r"
      if "evaluate_ref_keys n d root ks' c j t = Some r" for c j t
      using that by (rule IH3)
    from run show ?thesis
      unfolding Cons add_Suc evaluate_ref_keys.simps list.case
    proof (rule and_then_more)
      show "call d s (\<lambda>d'. evaluate_key (n + k) d' root e s) = Some x"
        if "call d s (\<lambda>d'. evaluate_key n d' root e s) = Some x" for x
        using that by (rule c5)
    next
      fix key' s1
      assume "(case cur of
                 None \<Rightarrow> evaluate_ref_keys n d root ks' cur ik s1
               | Some (Array x) \<Rightarrow> raise NotImplementedError s1
               | Some (Table items) \<Rightarrow>
                   and_then (evaluate_ref_items n d root key' items cur ik s1)
                    (\<lambda>(found, current', item_key') s2.
                        if \<not> found
                        then case item_key' of
                               None \<Rightarrow> raise (UnboundLocalError ''item_key'') s2
                             | Some ik \<Rightarrow> raise (KeyError ''Key not found.'' key' ik) s2
                        else evaluate_ref_keys n d root ks' current' item_key' s2)
               | Some _ \<Rightarrow> evaluate_ref_keys n d root ks' cur ik s1) = Some r"
      then show "(case cur of
                 None \<Rightarrow> evaluate_ref_keys (n + k) d root ks' cur ik s1
               | Some (Array x) \<Rightarrow> raise NotImplementedError s1
               | Some (Table items) \<Rightarrow>
                   and_then (evaluate_ref_items (n + k) d root key' items cur ik s1)
                    (\<lambda>(found, current', item_key') s2.
                        if \<not> found
                        then case item_key' of
                               None \<Rightarrow> raise (UnboundLocalError ''item_key'') s2
                             | Some ik \<Rightarrow> raise (KeyError ''Key not found.'' key' ik) s2
                        else evaluate_ref_keys (n + k) d root ks' current' item_key' s2)
               | Some _ \<Rightarrow> evaluate_ref_keys (n + k) d root ks' cur ik s1) = Some r"
        by (auto simp: rest IH4 elim!: and_then_more split: option.splits expr.splits if_splits)
    qed
  qed
  have 4: "evaluate_ref_items (Suc n + k) d root a its cur ik s = Some r"
    if "evaluate_ref_items (Suc n) d root a its cur ik s = Some r" for d root a its cur ik s r
  proof (cases its)
    case Nil
    with that show ?thesis by (simp add: evaluate_ref_items.simps)
  next
    case (Cons it its')
    from that Cons obtain p where p: "call d s (\<lambda>d'. evaluate_key n d' root (key it) s) = Some p"
      by (cases "call d s (\<lambda>d'. evaluate_key n d' root (key it) s)")
         (simp_all add: evaluate_ref_items.simps)
    from c5 [OF p] have p': "call d s (\<lambda>d'. evaluate_key (n + k) d' root (key it) s) = Some p" .
    from that Cons p p' show ?thesis
      by (auto simp: evaluate_ref_items.simps dest: IH4 elim!: and_then_more
               split: prod.splits sum.splits if_splits)
  qed
  have 5: "evaluate_key (Suc n + k) d root e s = Some r"
    if "evaluate_key (Suc n) d root e s = Some r" for d root e s r
    using that
    by (cases e)
       (auto simp: evaluate_key.simps dest: c1 IH5 elim!: and_then_more split: option.splits)
  have 6: "evaluate_table (Suc n + k) d root its s = Some r"
    if "evaluate_table (Suc n) d root its s = Some r" for d root its s r
    using that
    by (cases its) (auto simp: evaluate_table.simps dest: c1 IH6 elim!: and_then_more)
  show ?case by (intro conjI allI impI 1 2 3 4 5 6)
qed

lemma more_steps2:
  "(\<forall>d root e s r. evaluate_expr2 n d root e s = Some r \<longrightarrow> evaluate_expr2 (n + k) d root e s = Some r) \<and>
   (\<forall>d root i ks m s r. evaluate_ref2 n d root i ks m s = Some r
      \<longrightarrow> evaluate_ref2 (n + k) d root i ks m s = Some r) \<and>
   (\<forall>d root ks cur s r. evaluate_ref_keys2 n d root ks cur s = Some r
      \<longrightarrow> evaluate_ref_keys2 (n + k) d root ks cur s = Some r) \<and>
   (\<forall>d root a its cur s r. evaluate_ref_items2 n d root a its cur s = Some r
      \<longrightarrow> evaluate_ref_items2 (n + k) d root a its cur s = Some r) \<and>
   (\<forall>d root e s r. unwrap n d root e s = Some r \<longrightarrow> unwrap (n + k) d root e s = Some r) \<and>
   (\<forall>d root its s r. evaluate_table2 n d root its s = Some r
      \<longrightarrow> evaluate_table2 (n + k) d root its s = Some r)"
proof (induction n)
  case 0
  show ?case by (simp add: evaluator2_simps)
next
  case (Suc n)
  note IH1 = Suc.IH [THEN conjunct1, rule_format]
    and IH2 = Suc.IH [THEN conjunct2, THEN conjunct1, rule_format]
    and IH3 = Suc.IH [THEN conjunct2, THEN conjunct2, THEN conjunct1, rule_format]
    and IH4 = Suc.IH [THEN conjunct2, THEN conjunct2, THEN conjunct2, THEN conjunct1, rule_format]
    and IH5 = Suc.IH [THEN conjunct2, THEN conjunct2, THEN conjunct2, THEN conjunct2, THEN conjunct1,
                      rule_format]
    and IH6 = Suc.IH [THEN conjunct2, THEN conjunct2, THEN conjunct2, THEN conjunct2, THEN conjunct2,
                      rule_format]
  have c1: "call d s (\<lambda>d'. evaluate_expr2 (n + k) d' root e s) = Some r"
    if "call d s (\<lambda>d'. evaluate_expr2 n d' root e s) = Some r" for d root e s r
    using that by (rule call_more) (rule IH1)
  have c5: "call d s (\<lambda>d'. unwrap (n + k) d' root e s) = Some r"
    if "call d s (\<lambda>d'. unwrap n d' root e s) = Some r" for d root e s r
    using that by (rule call_more) (rule IH5)
  have 1: "evaluate_expr2 (Suc n + k) d root e s = Some r"
    if "evaluate_expr2 (Suc n) d root e s = Some r" for d root e s r
    using that by (cases e) (auto simp: evaluate_expr2.simps dest: IH2 IH6 elim!: call_more)
  have 2: "evaluate_ref2 (Suc n + k) d root i ks m s = Some r"
    if "evaluate_ref2 (Suc n) d root i ks m s = Some r" for d root i ks m s r
    using that
    by (auto simp: evaluate_ref2.simps Let_def dest: IH3 elim!: and_then_more split: if_splits)
  have 3: "evaluate_ref_keys2 (Suc n + k) d root ks cur s = Some r"
    if run: "evaluate_ref_keys2 (Suc n) d root ks cur s = Some r" for d root ks cur s r
  proof (cases ks)
    case Nil
    with run show ?thesis by (simp add: evaluate_ref_keys2.simps)
  next
    case (Cons e ks')
    show ?thesis
    proof (cases cur)
      case None
      with run Cons show ?thesis by (simp add: evaluate_ref_keys2.simps)
    next
      case (Some c)
      have rest: "evaluate_ref_keys2 (n + k) d root ks' c' t = Some r"
        if "evaluate_ref_keys2 n d root ks' c' t = Some r" for c' t
        using that by (rule IH3)
      from run show ?thesis
        unfolding Cons Some add_Suc evaluate_ref_keys2.simps list.case option.case
        by (elim and_then_more)
           (auto simp: rest c5 IH4 elim!: and_then_more split: expr.splits if_splits)
    qed
  qed
  have 4: "evaluate_ref_items2 (Suc n + k) d root a its cur s = Some r"
    if "evaluate_ref_items2 (Suc n) d root a its cur s = Some r" for d root a its cur s r
  proof (cases its)
    case Nil
    with that show ?thesis by (simp add: evaluate_ref_items2.simps)
  next
    case (Cons it its')
    from that Cons obtain p where p: "call d s (\<lambda>d'. unwrap n d' root (key it) s) = Some p"
      by (cases "call d s (\<lambda>d'. unwrap n d' root (key it) s)")
         (simp_all add: evaluate_ref_items2.simps)
    from c5 [OF p] have p': "call d s (\<lambda>d'. unwrap (n + k) d' root (key it) s) = Some p" .
    from that Cons p p' show ?thesis
      by (auto simp: evaluate_ref_items2.simps dest: IH4 split: prod.splits sum.splits if_splits)
  qed
  have 5: "unwrap (Suc n + k) d root e s = Some r"
    if "unwrap (Suc n) d root e s = Some r" for d root e s r
    using that
    by (cases e)
       (auto simp: unwrap.simps dest: c1 IH5 elim!: and_then_more split: option.splits)
  have 6: "evaluate_table2 (Suc n + k) d root its s = Some r"
    if "evaluate_table2 (Suc n) d root its s = Some r" for d root its s r
    using that
    by (cases its) (auto simp: evaluate_table2.simps dest: c1 IH6 elim!: and_then_more)
  show ?case by (intro conjI allI impI 1 2 3 4 5 6)
qed

lemmas evaluate_expr_more = more_steps [THEN conjunct1, rule_format]
lemmas evaluate_ref_more = more_steps [THEN conjunct2, THEN conjunct1, rule_format]
lemmas evaluate_ref_keys_more =
  more_steps [THEN conjunct2, THEN conjunct2, THEN conjunct1, rule_format]
lemmas evaluate_ref_items_more =
  more_steps [THEN conjunct2, THEN conjunct2, THEN conjunct2, THEN conjunct1, rule_format]
lemmas evaluate_key_more =
  more_steps [THEN conjunct2, THEN conjunct2, THEN conjunct2, THEN conjunct2, THEN conjunct1,
              rule_format]

lemmas evaluate_expr2_more = more_steps2 [THEN conjunct1, rule_format]
lemmas evaluate_ref2_more = more_steps2 [THEN conjunct2, THEN conjunct1, rule_format]
lemmas evaluate_ref_keys2_more =
  more_steps2 [THEN conjunct2, THEN conjunct2, THEN conjunct1, rule_format]
lemmas evaluate_ref_items2_more =
  more_steps2 [THEN conjunct2, THEN conjunct2, THEN conjunct2, THEN conjunct1, rule_format]
lemmas unwrap_more =
  more_steps2 [THEN conjunct2, THEN conjunct2, THEN conjunct2, THEN conjunct2, THEN conjunct1,
               rule_format]

lemma evaluate_more:
  assumes "evaluate n d root s = Some r"
  shows "evaluate (n + k) d root s = Some r"
  using assms unfolding evaluate_def Let_def
  by (auto elim!: and_then_more call_more dest: evaluate_expr_more)

lemma evaluate2_more:
  assumes "evaluate2 n d root s = Some r"
  shows "evaluate2 (n + k) d root s = Some r"
  using assms unfolding evaluate2_def Let_def
  by (auto elim!: and_then_more call_more dest: evaluate_expr2_more)

text \<open>
  In the model of both modules, an \<^verbatim>\<open>evaluate\<close> that returns or raises within \<open>n\<close> steps
  returns or raises the same, with the same state, within any \<open>m \<ge> n\<close> steps, the number
  of frames being the same.
\<close>

theorem more_steps_same_outcome:
  "n \<le> m \<Longrightarrow>
     (evaluate n d root s = Some r \<longrightarrow> evaluate m d root s = Some r) \<and>
     (evaluate2 n d root s = Some r \<longrightarrow> evaluate2 m d root s = Some r)"
proof -
  assume "n \<le> m"
  then obtain k where m: "m = n + k" using le_Suc_ex by blast
  show ?thesis
    unfolding m using evaluate_more evaluate2_more by blast
qed

theorem more_steps_same_outcome_witness:
  "evaluate 30 20 doc_chain fresh = evaluate 20 20 doc_chain fresh \<and>
   evaluate2 30 20 doc_chain fresh = evaluate2 20 20 doc_chain fresh \<and>
   evaluate 20 20 doc_chain fresh \<noteq> None \<and> evaluate2 20 20 doc_chain fresh \<noteq> None"
proof -
  obtain r where 1: "evaluate 20 20 doc_chain fresh = Some r"
    by (cases "evaluate 20 20 doc_chain fresh") (simp_all add: doc_chain_def run_defs)
  obtain r2 where 2: "evaluate2 20 20 doc_chain fresh = Some r2"
    by (cases "evaluate2 20 20 doc_chain fresh") (simp_all add: doc_chain_def run_defs)
  have le: "(20::nat) \<le> 30" by simp
  from more_steps_same_outcome [OF le, of 20 doc_chain fresh r] 1
  have "evaluate 30 20 doc_chain fresh = Some r" by blast
  moreover from more_steps_same_outcome [OF le, of 20 doc_chain fresh r2] 2
  have "evaluate2 30 20 doc_chain fresh = Some r2" by blast
  ultimately show ?thesis using 1 2 by simp
qed

section \<open>Re-entering a reference\<close>

text \<open>
  Claim C1, as the code has it. \<^verbatim>\<open>_evaluate_ref\<close> on a reference whose flag is already set
  returns at once and changes nothing, in both modules and whatever the stack: it raises
  no error. The error comes from the reader: \<^verbatim>\<open>_evaluate_key\<close> and \<^verbatim>\<open>_unwrap\<close>, which
  reach \<^verbatim>\<open>_evaluate_ref\<close> through \<^verbatim>\<open>_evaluate\<close> (two frames), raise \<^verbatim>\<open>RuntimeError\<close> when the
  cache of the reference they asked for is still absent.
\<close>

theorem reentry_returns_silently:
  "evaluated (s i) \<Longrightarrow>
     evaluate_ref (Suc n) d root i ks m s = Some (Inr (), s) \<and>
     evaluate_ref2 (Suc n) d root i ks m s = Some (Inr (), s) \<and>
     (cache (s i) = None \<longrightarrow>
        evaluate_key (Suc (Suc (Suc n))) (Suc (Suc d)) root (Ref i ks m) s
          = Some (Inl (RuntimeError ''Failed to evaluate reference.''), s) \<and>
        unwrap (Suc (Suc (Suc n))) (Suc (Suc d)) root (Ref i ks m) s
          = Some (Inl (RuntimeError ''Failed to evaluate reference.''), s))"
  by (simp add: evaluator_simps evaluator2_simps outcome_defs)

theorem reentry_returns_silently_witness:
  "evaluated (in_progress 0) \<and> cache (in_progress 0) = None \<and>
   evaluate_ref (Suc 0) 0 doc_reentry 0 [Str ''x''] ABSOLUTE in_progress = Some (Inr (), in_progress) \<and>
   evaluate_ref2 (Suc 0) 0 doc_reentry 0 [Str ''x''] ABSOLUTE in_progress = Some (Inr (), in_progress) \<and>
   evaluate_key (Suc (Suc (Suc 0))) (Suc (Suc 0)) doc_reentry (Ref 0 [Str ''x''] ABSOLUTE) in_progress
     = Some (Inl (RuntimeError ''Failed to evaluate reference.''), in_progress) \<and>
   unwrap (Suc (Suc (Suc 0))) (Suc (Suc 0)) doc_reentry (Ref 0 [Str ''x''] ABSOLUTE) in_progress
     = Some (Inl (RuntimeError ''Failed to evaluate reference.''), in_progress)"
proof -
  have flag: "evaluated (in_progress 0)"
    by (simp add: in_progress_def)
  have absent: "cache (in_progress 0) = None"
    by (simp add: in_progress_def)
  note reentry_returns_silently [of in_progress 0 0 0 doc_reentry "[Str ''x'']" ABSOLUTE, OF flag]
  with flag absent show ?thesis by blast
qed

text \<open>
  Claim C1 as stated fails: on the reference of \<open>doc_reentry\<close> that is in progress,
  \<^verbatim>\<open>_evaluate_ref\<close> returns normally, and the whole document, whose scan re-enters
  that reference, evaluates without any error.
\<close>

theorem reentry_no_cycle_error:
  "evaluate_ref 1 20 doc_reentry 0 [Str ''x''] ABSOLUTE in_progress = Some (Inr (), in_progress) \<and>
   evaluate_ref2 1 20 doc_reentry 0 [Str ''x''] ABSOLUTE in_progress = Some (Inr (), in_progress) \<and>
   (\<forall>d. caches [0] (evaluate 20 (20 + d) doc_reentry fresh)
           = Some (Inr doc_reentry, [Some (Str ''k'')])) \<and>
   (\<forall>d. caches [0] (evaluate2 20 (20 + d) doc_reentry fresh)
           = Some (Inr doc_reentry, [Some (Str ''k'')]))"
  by (simp add: in_progress_def doc_reentry_def run_defs)

section \<open>A key that no entry has\<close>

text \<open>
  Claim C3 at its own example, in \<^verbatim>\<open>evaluator2.py\<close>: looking up \<^verbatim>\<open>"b"\<close> in
  \<^verbatim>\<open>Table{ a: "1", ... }\<close> raises nothing; the scan ends, \<^verbatim>\<open>current\<close> is still the root
  table, and that table becomes the cache of the reference. This is so with any stack of
  20 frames or more.
\<close>

theorem missing_key_evaluator2:
  "caches [0] (evaluate2 20 (20 + d) doc_missing_key fresh)
     = Some (Inr doc_missing_key, [Some doc_missing_key])"
  by (simp add: doc_missing_key_def run_defs)

text \<open>
  \<^verbatim>\<open>evaluator.py\<close> does raise \<^verbatim>\<open>KeyError\<close> there; its arguments are the key and the last
  entry key that was unwrapped, not the table.
\<close>

lemma missing_key_evaluator:
  "caches [0] (evaluate 20 (20 + d) doc_missing_key fresh)
     = Some (Inl (KeyError ''Key not found.'' (Str ''b'') (Str ''r'')), [None])"
  by (simp add: doc_missing_key_def run_defs)

text \<open>
  In general, for \<^verbatim>\<open>evaluator.py\<close>: when the scan of the table ends without a match and
  some entry key has been unwrapped, the lookup raises \<^verbatim>\<open>KeyError\<close> with the key and the
  last unwrapped entry key.
\<close>

theorem key_error_evaluator:
  "call d s (\<lambda>d'. evaluate_key n d' root k s) = Some (Inr key', s1) \<Longrightarrow>
   evaluate_ref_items n d root key' items (Some (Table items)) ik s1
     = Some (Inr (False, cur', Some ik'), s2) \<Longrightarrow>
   evaluate_ref_keys (Suc n) d root (k # ks) (Some (Table items)) ik s
     = Some (Inl (KeyError ''Key not found.'' key' ik'), s2)"
  by (simp add: evaluate_ref_keys.simps outcome_defs)

theorem key_error_evaluator_witness:
  "evaluate_ref_keys (Suc (Suc (Suc 0))) 10 doc_missing_key [Str ''b'']
     (Some (Table [TableItem (Str ''a'') (Str ''1'') None])) None fresh
     = Some (Inl (KeyError ''Key not found.'' (Str ''b'') (Str ''a'')), fresh)"
proof -
  have k: "call 10 fresh (\<lambda>d'. evaluate_key (Suc (Suc 0)) d' doc_missing_key (Str ''b'') fresh)
             = Some (Inr (Str ''b''), fresh)"
    by (simp add: evaluate_key.simps return_def call_def eval_nat_numeral)
  have scan: "evaluate_ref_items (Suc (Suc 0)) 10 doc_missing_key (Str ''b'')
                [TableItem (Str ''a'') (Str ''1'') None]
                (Some (Table [TableItem (Str ''a'') (Str ''1'') None])) None fresh
              = Some (Inr (False, Some (Table [TableItem (Str ''a'') (Str ''1'') None]), Some (Str ''a'')), fresh)"
    by (simp add: run_defs)
  from key_error_evaluator [OF k scan] show ?thesis .
qed

section \<open>Indexing what is not a table\<close>

text \<open>
  Claim C5 at its own example, in \<^verbatim>\<open>evaluator.py\<close>: the \<^verbatim>\<open>match\<close> on \<^verbatim>\<open>current\<close> has no arm
  for a \<^verbatim>\<open>Str\<close>, so the segment \<^verbatim>\<open>"c"\<close> is passed over and the string at \<^verbatim>\<open>a\<close> becomes the
  cache. No \<^verbatim>\<open>TypeError\<close> is raised. This is so with any stack of 20 frames or more.
\<close>

theorem index_scalar_evaluator:
  "caches [0] (evaluate 20 (20 + d) doc_index_scalar fresh)
     = Some (Inr doc_index_scalar, [Some (Str ''1'')])"
  by (simp add: doc_index_scalar_def run_defs)

text \<open>\<^verbatim>\<open>evaluator2.py\<close> raises the \<^verbatim>\<open>TypeError\<close> of the claim.\<close>

lemma index_scalar_evaluator2:
  "caches [0] (evaluate2 20 (20 + d) doc_index_scalar fresh)
     = Some (Inl (TypeError ''Expect table.''), [None])"
  by (simp add: doc_index_scalar_def run_defs)

text \<open>
  In general, for \<^verbatim>\<open>evaluator2.py\<close>: when the current target unwraps to a node that is no
  table (and the key unwraps to a string), the lookup raises \<^verbatim>\<open>TypeError\<close>.
\<close>

theorem expect_table_evaluator2:
  "call d s (\<lambda>d'. unwrap n d' root cur s) = Some (Inr curry', s1) \<Longrightarrow>
   call d s1 (\<lambda>d'. unwrap n d' root k s1) = Some (Inr (Str a), s2) \<Longrightarrow>
   \<not> is_Table curry' \<Longrightarrow>
   evaluate_ref_keys2 (Suc n) d root (k # ks) (Some cur) s
     = Some (Inl (TypeError ''Expect table.''), s2)"
  by (cases curry') (simp_all add: evaluate_ref_keys2.simps outcome_defs)

theorem expect_table_evaluator2_witness:
  "evaluate_ref_keys2 (Suc (Suc 0)) 10 doc_index_scalar [Str ''c''] (Some (Str ''1'')) fresh
     = Some (Inl (TypeError ''Expect table.''), fresh)"
proof -
  have c: "call 10 fresh (\<lambda>d'. unwrap (Suc 0) d' doc_index_scalar (Str ''1'') fresh)
             = Some (Inr (Str ''1''), fresh)"
    by (simp add: unwrap.simps return_def call_def eval_nat_numeral)
  have k: "call 10 fresh (\<lambda>d'. unwrap (Suc 0) d' doc_index_scalar (Str ''c'') fresh)
             = Some (Inr (Str ''c''), fresh)"
    by (simp add: unwrap.simps return_def call_def eval_nat_numeral)
  from expect_table_evaluator2 [OF c k] show ?thesis by simp
qed

section \<open>A relative reference without a scope\<close>

text \<open>
  Claim C7 in \<^verbatim>\<open>evaluator.py\<close>: a relative reference that is the whole document has no
  parent; \<^verbatim>\<open>current\<close> is \<^verbatim>\<open>None\<close>, no arm of the \<^verbatim>\<open>match\<close> applies, and the evaluation
  returns normally with an absent cache. This is so with any stack of 20 frames or more.
\<close>

theorem relative_root_evaluator:
  "caches [0] (evaluate 20 (20 + d) doc_relative_root fresh) = Some (Inr doc_relative_root, [None])"
  by (simp add: doc_relative_root_def run_defs)

text \<open>\<^verbatim>\<open>evaluator2.py\<close> raises \<^verbatim>\<open>TypeError("NONE!")\<close> on the same document.\<close>

lemma relative_root_evaluator2:
  "caches [0] (evaluate2 20 (20 + d) doc_relative_root fresh)
     = Some (Inl (TypeError ''NONE!''), [None])"
  by (simp add: doc_relative_root_def run_defs)

text \<open>
  In general, for \<^verbatim>\<open>evaluator2.py\<close>: a relative reference with at least one key and no
  parent raises \<^verbatim>\<open>TypeError("NONE!")\<close>, and stays flagged as evaluated.
\<close>

theorem no_scope_evaluator2:
  "\<not> evaluated (s i) \<Longrightarrow> parent (s i) = None \<Longrightarrow>
   evaluate_ref2 (Suc (Suc n)) d root i (k # ks) RELATIVE s
     = Some (Inl (TypeError ''NONE!''), s(i := (s i)\<lparr>evaluated := True\<rparr>))"
  by (simp add: evaluate_ref2.simps evaluate_ref_keys2.simps outcome_defs)

theorem no_scope_evaluator2_witness:
  "evaluate_ref2 (Suc (Suc 0)) 0 doc_relative_root 0 [Str ''a''] RELATIVE fresh
     = Some (Inl (TypeError ''NONE!''), fresh(0 := (fresh 0)\<lparr>evaluated := True\<rparr>))"
proof -
  have "\<not> evaluated (fresh 0)" "parent (fresh 0) = None" by (simp_all add: fresh_def)
  then show ?thesis by (rule no_scope_evaluator2 [of fresh 0 0 0 doc_relative_root "Str ''a''" "[]"])
qed

section \<open>Passing over the entries that do not match\<close>

lemma str_match: "(is_Str k \<and> value_eq (Str a) k) = (k = Str a)"
  by (cases k) auto

lemma key_call_more:
  assumes "call d s (\<lambda>d'. evaluate_key m d' root e s) = Some p" and "m \<le> n"
  shows "call d s (\<lambda>d'. evaluate_key n d' root e s) = Some p"
proof -
  from assms(2) obtain k where n: "n = m + k" using le_Suc_ex by blast
  from assms(1) show ?thesis unfolding n by (rule call_more) (rule evaluate_key_more)
qed

lemma unwrap_call_more:
  assumes "call d s (\<lambda>d'. unwrap m d' root e s) = Some p" and "m \<le> n"
  shows "call d s (\<lambda>d'. unwrap n d' root e s) = Some p"
proof -
  from assms(2) obtain k where n: "n = m + k" using le_Suc_ex by blast
  from assms(1) show ?thesis unfolding n by (rule call_more) (rule unwrap_more)
qed

lemma print_printable [simp]: "printable d s args \<Longrightarrow> print d args s = return () s"
  by (simp add: print_def)

lemma and_then_return [simp]: "and_then (return x s) f = f x s"
  by (simp add: and_then_def return_def)

lemma scan_passes:
  assumes "passes m d root a cur pre s = Some s1" and "m \<le> n"
  shows "\<exists>ik'. evaluate_ref_items (length pre + Suc n) d root (Str a) (pre @ rest) cur ik s
           = evaluate_ref_items (Suc n) d root (Str a) rest cur ik' s1"
  using assms(1)
proof (induction pre arbitrary: s ik)
  case Nil
  then show ?case by auto
next
  case (Cons it pre)
  from Cons.prems obtain p where p: "call d s (\<lambda>d'. evaluate_key m d' root (key it) s) = Some p"
    by (cases "call d s (\<lambda>d'. evaluate_key m d' root (key it) s)") simp_all
  from assms(2) have "m \<le> length pre + Suc n" by simp
  with p have p': "call d s (\<lambda>d'. evaluate_key (length pre + Suc n) d' root (key it) s) = Some p"
    by (rule key_call_more)
  obtain res s' where r: "p = (res, s')" by (cases p)
  show ?case
  proof (cases res)
    case (Inl e)
    with Cons.prems p r have caught: "is_RuntimeError e \<or> is_TypeError e"
      and pr: "printable d s' [Some (Str a), Some (key it), cur]"
      and rest: "passes m d root a cur pre s' = Some s1"
      by (simp_all split: if_splits)
    from Cons.IH [OF rest, of ik] obtain ik' where
      "evaluate_ref_items (length pre + Suc n) d root (Str a) (pre @ rest) cur ik s'
         = evaluate_ref_items (Suc n) d root (Str a) rest cur ik' s1" ..
    with p' r Inl caught pr show ?thesis
      by (auto simp: evaluate_ref_items.simps)
  next
    case (Inr k)
    with Cons.prems p r have ne: "k \<noteq> Str a"
      and pr: "printable d s' [Some (Str a), Some (key it), cur]"
      and rest: "passes m d root a cur pre s' = Some s1"
      by (simp_all split: if_splits)
    from ne have nm: "\<not> (is_Str k \<and> value_eq (Str a) k)" by (simp only: str_match) simp
    from Cons.IH [OF rest, of "Some k"] obtain ik' where
      "evaluate_ref_items (length pre + Suc n) d root (Str a) (pre @ rest) cur (Some k) s'
         = evaluate_ref_items (Suc n) d root (Str a) rest cur ik' s1" ..
    with p' r Inr nm pr show ?thesis
      by (auto simp: evaluate_ref_items.simps)
  qed
qed

lemma scan_match:
  assumes "passes m d root a cur pre s = Some s1"
    and "call d s1 (\<lambda>d'. evaluate_key m d' root (key it) s1) = Some (Inr (Str a), s2)"
    and "printable d s2 [Some (Str a), Some (key it), cur]"
  shows "evaluate_ref_items (length pre + Suc (Suc m)) d root (Str a) (pre @ it # post) cur ik s
           = Some (Inr (True, Some (val it), Some (Str a)), s2)"
proof -
  from scan_passes [OF assms(1), of "Suc m" "it # post" ik] obtain ik' where
    "evaluate_ref_items (length pre + Suc (Suc m)) d root (Str a) (pre @ it # post) cur ik s
       = evaluate_ref_items (Suc (Suc m)) d root (Str a) (it # post) cur ik' s1"
    by auto
  moreover from assms(2)
  have "call d s1 (\<lambda>d'. evaluate_key (Suc m) d' root (key it) s1) = Some (Inr (Str a), s2)"
    by (rule key_call_more) simp
  then have "evaluate_ref_items (Suc (Suc m)) d root (Str a) (it # post) cur ik' s1
               = Some (Inr (True, Some (val it), Some (Str a)), s2)"
    using assms(3) by (simp add: evaluate_ref_items.simps outcome_defs)
  ultimately show ?thesis by simp
qed

lemma scan2_passes:
  assumes "passes2 m d root a pre s = Some s1" and "m \<le> n"
  shows "evaluate_ref_items2 (length pre + Suc n) d root (Str a) (pre @ rest) cur s
           = evaluate_ref_items2 (Suc n) d root (Str a) rest cur s1"
  using assms(1)
proof (induction pre arbitrary: s)
  case Nil
  then show ?case by auto
next
  case (Cons it pre)
  from Cons.prems obtain p where p: "call d s (\<lambda>d'. unwrap m d' root (key it) s) = Some p"
    by (cases "call d s (\<lambda>d'. unwrap m d' root (key it) s)") simp_all
  from assms(2) have "m \<le> length pre + Suc n" by simp
  with p have p': "call d s (\<lambda>d'. unwrap (length pre + Suc n) d' root (key it) s) = Some p"
    by (rule unwrap_call_more)
  obtain res s' where r: "p = (res, s')" by (cases p)
  show ?case
  proof (cases res)
    case (Inl e)
    with Cons.prems p r have caught: "is_RuntimeError e"
      and rest: "passes2 m d root a pre s' = Some s1"
      by (simp_all split: if_splits)
    from Cons.IH [OF rest] p' r Inl caught show ?thesis
      by (simp add: evaluate_ref_items2.simps)
  next
    case (Inr k)
    with Cons.prems p r obtain b where k: "k = Str b" and ne: "b \<noteq> a"
      and rest: "passes2 m d root a pre s' = Some s1"
      by (cases k) (simp_all split: if_splits)
    from Cons.IH [OF rest] p' r Inr k ne show ?thesis
      by (auto simp: evaluate_ref_items2.simps)
  qed
qed

lemma scan2_match:
  assumes "passes2 m d root a pre s = Some s1"
    and "call d s1 (\<lambda>d'. unwrap m d' root (key it) s1) = Some (Inr (Str a), s2)"
  shows "evaluate_ref_items2 (length pre + Suc (Suc m)) d root (Str a) (pre @ it # post) cur s
           = Some (Inr (Some (val it)), s2)"
proof -
  from scan2_passes [OF assms(1), of "Suc m" "it # post" cur]
  have "evaluate_ref_items2 (length pre + Suc (Suc m)) d root (Str a) (pre @ it # post) cur s
       = evaluate_ref_items2 (Suc (Suc m)) d root (Str a) (it # post) cur s1"
    by auto
  moreover from assms(2)
  have "call d s1 (\<lambda>d'. unwrap (Suc m) d' root (key it) s1) = Some (Inr (Str a), s2)"
    by (rule unwrap_call_more) simp
  then have "evaluate_ref_items2 (Suc (Suc m)) d root (Str a) (it # post) cur s1
               = Some (Inr (Some (val it)), s2)"
    by (simp add: evaluate_ref_items2.simps return_def)
  ultimately show ?thesis by simp
qed

section \<open>Sibling keys that fail to unwrap\<close>

text \<open>
  A broken key fails with an error that the scan catches, whatever the stack: with no
  frame left the call itself raises \<^verbatim>\<open>RecursionError\<close>, which is a \<^verbatim>\<open>RuntimeError\<close> too.
\<close>

lemma evaluate_key_broken:
  "broken s e \<Longrightarrow>
   \<exists>err. call d s (\<lambda>d'. evaluate_key (Suc (Suc (Suc n))) d' root e s) = Some (Inl err, s) \<and>
         (is_RuntimeError err \<or> is_TypeError err)"
proof (cases d)
  case 0
  then show ?thesis by (simp add: raise_def)
next
  case d: (Suc d1)
  assume b: "broken s e"
  show ?thesis
  proof (cases d1)
    case 0
    with b d show ?thesis
      by (cases e) (simp_all add: broken_def evaluate_key.simps outcome_defs)
  next
    case d1: (Suc d2)
    show ?thesis
    proof (cases d2)
      case 0
      with b d d1 show ?thesis
        by (cases e) (simp_all add: broken_def evaluate_key.simps evaluate_expr.simps outcome_defs)
    next
      case (Suc d3)
      with b d d1 show ?thesis
        by (cases e) (simp_all add: broken_def evaluator_simps outcome_defs)
    qed
  qed
qed

lemma unwrap_broken2:
  "broken2 s e \<Longrightarrow>
   \<exists>err. call d s (\<lambda>d'. unwrap (Suc (Suc (Suc n))) d' root e s) = Some (Inl err, s) \<and>
         is_RuntimeError err"
proof (cases d)
  case 0
  then show ?thesis by (simp add: raise_def)
next
  case d: (Suc d1)
  assume b: "broken2 s e"
  show ?thesis
  proof (cases d1)
    case 0
    with b d show ?thesis
      by (cases e) (simp_all add: broken2_def unwrap.simps outcome_defs)
  next
    case d1: (Suc d2)
    show ?thesis
    proof (cases d2)
      case 0
      with b d d1 show ?thesis
        by (cases e) (simp_all add: broken2_def unwrap.simps evaluate_expr2.simps outcome_defs)
    next
      case (Suc d3)
      with b d d1 show ?thesis
        by (cases e) (simp_all add: broken2_def evaluator2_simps outcome_defs)
    qed
  qed
qed

lemma broken_passes:
  "\<forall>it\<in>set pre. broken s (key it) \<and> printable d s [Some (Str a), Some (key it), cur] \<Longrightarrow>
   passes (Suc (Suc (Suc n))) d root a cur pre s = Some s"
proof (induction pre)
  case Nil
  show ?case by simp
next
  case (Cons it pre)
  from Cons.prems have "broken s (key it)" by simp
  from evaluate_key_broken [OF this, of d n root] obtain err where
    "call d s (\<lambda>d'. evaluate_key (Suc (Suc (Suc n))) d' root (key it) s) = Some (Inl err, s)"
    "is_RuntimeError err \<or> is_TypeError err"
    by blast
  with Cons show ?case by simp
qed

lemma broken2_passes2:
  "\<forall>it\<in>set pre. broken2 s (key it) \<Longrightarrow>
   passes2 (Suc (Suc (Suc n))) d root a pre s = Some s"
proof (induction pre)
  case Nil
  show ?case by simp
next
  case (Cons it pre)
  from Cons.prems have "broken2 s (key it)" by simp
  from unwrap_broken2 [OF this, of d n root] obtain err where
    "call d s (\<lambda>d'. unwrap (Suc (Suc (Suc n))) d' root (key it) s) = Some (Inl err, s)"
    "is_RuntimeError err"
    by blast
  with Cons show ?case by simp
qed

text \<open>
  Claim C6, as the code has it. In the scan of \<^verbatim>\<open>evaluator.py\<close>, the entries whose key is
  \<open>broken\<close> (a reference that is in progress or has failed, or a node of no key type)
  are skipped, provided that the \<^verbatim>\<open>print\<close> of the handler succeeds at each of them,
  and the first entry after them whose key unwraps to the string looked up is the
  match, provided that its own \<^verbatim>\<open>print\<close> succeeds. In \<^verbatim>\<open>evaluator2.py\<close>, which prints
  nothing, the same holds for the entries whose key is a reference that is in progress
  or has failed, and only for them. Both hold with any number of frames left: a broken
  key fails with an error that is caught even when the stack is full.
\<close>

theorem broken_sibling_keys_are_skipped:
  "((\<forall>it\<in>set pre. broken s (key it) \<and> printable d s [Some (Str a), Some (key it), cur]) \<and>
    call d s (\<lambda>d'. evaluate_key (Suc (Suc (Suc n))) d' root (key it) s) = Some (Inr (Str a), s1) \<and>
    printable d s1 [Some (Str a), Some (key it), cur]
    \<longrightarrow> evaluate_ref_items (length pre + Suc (Suc (Suc (Suc (Suc n))))) d root (Str a)
            (pre @ it # post) cur ik s
          = Some (Inr (True, Some (val it), Some (Str a)), s1)) \<and>
   ((\<forall>it\<in>set pre. broken2 s (key it)) \<and>
    call d s (\<lambda>d'. unwrap (Suc (Suc (Suc n))) d' root (key it) s) = Some (Inr (Str a), s1)
    \<longrightarrow> evaluate_ref_items2 (length pre + Suc (Suc (Suc (Suc (Suc n))))) d root (Str a)
            (pre @ it # post) cur s
          = Some (Inr (Some (val it)), s1))"
proof (intro conjI impI)
  assume h: "(\<forall>it\<in>set pre. broken s (key it) \<and> printable d s [Some (Str a), Some (key it), cur]) \<and>
    call d s (\<lambda>d'. evaluate_key (Suc (Suc (Suc n))) d' root (key it) s) = Some (Inr (Str a), s1) \<and>
    printable d s1 [Some (Str a), Some (key it), cur]"
  then have "passes (Suc (Suc (Suc n))) d root a cur pre s = Some s"
    by (intro broken_passes) simp
  from scan_match [OF this] h
  show "evaluate_ref_items (length pre + Suc (Suc (Suc (Suc (Suc n))))) d root (Str a)
            (pre @ it # post) cur ik s
          = Some (Inr (True, Some (val it), Some (Str a)), s1)"
    by blast
next
  assume h: "(\<forall>it\<in>set pre. broken2 s (key it)) \<and>
    call d s (\<lambda>d'. unwrap (Suc (Suc (Suc n))) d' root (key it) s) = Some (Inr (Str a), s1)"
  then have "passes2 (Suc (Suc (Suc n))) d root a pre s = Some s"
    by (intro broken2_passes2) simp
  from scan2_match [OF this] h
  show "evaluate_ref_items2 (length pre + Suc (Suc (Suc (Suc (Suc n))))) d root (Str a)
            (pre @ it # post) cur s
          = Some (Inr (Some (val it)), s1)"
    by blast
qed

theorem broken_sibling_keys_are_skipped_witness:
  "evaluate_ref_items (Suc (Suc (Suc (Suc (Suc (Suc 0)))))) 10 doc_reentry (Str ''x'')
     [TableItem (Ref 0 [Str ''x''] ABSOLUTE) (Str ''v'') None, TableItem (Str ''x'') (Str ''k'') None]
     (Some doc_reentry) None in_progress
     = Some (Inr (True, Some (Str ''k''), Some (Str ''x'')), in_progress) \<and>
   evaluate_ref_items2 (Suc (Suc (Suc (Suc (Suc (Suc 0)))))) 10 doc_reentry (Str ''x'')
     [TableItem (Ref 0 [Str ''x''] ABSOLUTE) (Str ''v'') None, TableItem (Str ''x'') (Str ''k'') None]
     (Some doc_reentry) in_progress
     = Some (Inr (Some (Str ''k'')), in_progress)"
proof -
  let ?pre = "[TableItem (Ref 0 [Str ''x''] ABSOLUTE) (Str ''v'') None]"
  let ?it = "TableItem (Str ''x'') (Str ''k'') None"
  have flag: "evaluated (in_progress 0) \<and> cache (in_progress 0) = None"
    by (simp add: in_progress_def)
  have pr: "printable 10 in_progress [Some (Str ''x''), Some e, Some doc_reentry]"
    if "e = Ref 0 [Str ''x''] ABSOLUTE \<or> e = Str ''x''" for e
    using that flag by (auto simp: printable_def doc_reentry_def eval_nat_numeral)
  have b: "\<forall>it\<in>set ?pre. broken in_progress (key it) \<and>
             printable 10 in_progress [Some (Str ''x''), Some (key it), Some doc_reentry]"
    using flag pr by (simp add: broken_def)
  have b2: "\<forall>it\<in>set ?pre. broken2 in_progress (key it)"
    using flag by (simp add: broken2_def)
  have k: "call 10 in_progress (\<lambda>d'. evaluate_key (Suc (Suc (Suc 0))) d' doc_reentry (key ?it) in_progress)
             = Some (Inr (Str ''x''), in_progress)"
    by (simp add: evaluate_key.simps return_def call_def eval_nat_numeral)
  have u: "call 10 in_progress (\<lambda>d'. unwrap (Suc (Suc (Suc 0))) d' doc_reentry (key ?it) in_progress)
             = Some (Inr (Str ''x''), in_progress)"
    by (simp add: unwrap.simps return_def call_def eval_nat_numeral)
  from broken_sibling_keys_are_skipped
         [of ?pre in_progress 10 "''x''" "Some doc_reentry" 0 doc_reentry ?it in_progress "[]" None]
       b b2 k u pr
  show ?thesis by simp
qed

lemma repr_self_cached:
  "cache (s i) = Some (Ref i ks m) \<Longrightarrow> repr_ok d seen seen_items s (Ref i ks m) = False"
  by (induction d) simp_all

text \<open>
  Claim C6 as stated fails. In \<^verbatim>\<open>evaluator2.py\<close> a sibling key of the wrong type raises
  \<^verbatim>\<open>TypeError\<close> and ends the lookup before the matching entry \<^verbatim>\<open>a\<close> is reached. In
  \<^verbatim>\<open>evaluator.py\<close> a sibling key that is a reference to a missing key raises
  \<^verbatim>\<open>KeyError\<close>, which the scan does not catch; and in \<open>doc_self_cached\<close>, where the
  sibling key \<^verbatim>\<open>True\<close> fails with a \<^verbatim>\<open>TypeError\<close> that the scan does catch, the \<^verbatim>\<open>print\<close> of
  the handler raises \<^verbatim>\<open>RecursionError\<close>, because the table printed holds a reference
  that is its own cache: the lookup of \<^verbatim>\<open>b\<close> is aborted although the entry \<^verbatim>\<open>b\<close> is there.
  Each of the three happens with any stack of 20 frames or more.
\<close>

theorem sibling_failure_aborts:
  "(\<forall>d. caches [0] (evaluate2 20 (20 + d) doc_bool_sibling fresh)
          = Some (Inl (TypeError ''Expect string key for item.''), [None])) \<and>
   (\<forall>d. caches [0, 1] (evaluate 20 (20 + d) doc_dangling_sibling fresh)
          = Some (Inl (KeyError ''Key not found.'' (Str ''zzz'') (Str ''a'')), [None, None])) \<and>
   (\<forall>d. caches [0, 1] (evaluate 30 (20 + d) doc_self_cached fresh)
          = Some (Inl RecursionError, [Some (Ref 0 [Str ''s''] ABSOLUTE), None]))"
  by (simp add: doc_bool_sibling_def doc_dangling_sibling_def doc_self_cached_def run_defs
                repr_self_cached)

section \<open>The not-found branch of \<^verbatim>\<open>evaluator.py\<close>\<close>

lemma evaluate_key_no_key_type:
  "\<not> is_Str e \<Longrightarrow> \<not> is_Int e \<Longrightarrow> \<not> is_Ref e \<Longrightarrow>
   \<exists>err. call d s (\<lambda>d'. evaluate_key (Suc n) d' root e s) = Some (Inl err, s) \<and>
         (is_RuntimeError err \<or> is_TypeError err)"
  by (cases d; cases e) (simp_all add: evaluate_key.simps raise_def)

lemma scan_no_key_types:
  "\<forall>it\<in>set items. \<not> is_Str (key it) \<and> \<not> is_Int (key it) \<and> \<not> is_Ref (key it) \<and>
                  printable d s [Some key', Some (key it), cur] \<Longrightarrow>
   evaluate_ref_items (Suc (length items + n)) d root key' items cur ik s
     = Some (Inr (False, cur, ik), s)"
proof (induction items)
  case Nil
  show ?case by (simp add: evaluate_ref_items.simps return_def)
next
  case (Cons it items)
  from Cons.prems have "\<not> is_Str (key it)" "\<not> is_Int (key it)" "\<not> is_Ref (key it)" by simp_all
  from evaluate_key_no_key_type [OF this, of d s "length items + n" root] obtain err where
    "call d s (\<lambda>d'. evaluate_key (Suc (length items + n)) d' root (key it) s) = Some (Inl err, s)"
    "is_RuntimeError err \<or> is_TypeError err"
    by blast
  with Cons show ?case by (simp add: evaluate_ref_items.simps)
qed

text \<open>
  Claim C10. When the table searched has no entry whose key unwraps (here: every key, if
  there is any, is a node of no key type, at which the handler's \<^verbatim>\<open>print\<close> succeeds) and no
  earlier segment of this reference has assigned \<^verbatim>\<open>item_key\<close>, the scan ends with \<^verbatim>\<open>found\<close>
  false and the \<^verbatim>\<open>raise KeyError(...)\<close> reads the unassigned local: the lookup ends in
  \<^verbatim>\<open>UnboundLocalError\<close>, not \<^verbatim>\<open>KeyError\<close>.
\<close>

theorem unbound_item_key:
  assumes "\<forall>it\<in>set items. \<not> is_Str (key it) \<and> \<not> is_Int (key it) \<and> \<not> is_Ref (key it) \<and>
                          printable d s1 [Some key', Some (key it), Some (Table items)]"
    and "call d s (\<lambda>d'. evaluate_key (Suc (length items + n)) d' root k s) = Some (Inr key', s1)"
  shows "evaluate_ref_keys (Suc (Suc (length items + n))) d root (k # ks) (Some (Table items)) None s
           = Some (Inl (UnboundLocalError ''item_key''), s1)"
  using assms(2) scan_no_key_types [OF assms(1), of n root None]
  by (simp add: evaluate_ref_keys.simps outcome_defs)

text \<open>
  The table with zero entries, a table whose only key is a \<^verbatim>\<open>Bool\<close>, and a whole document:
  the only key of \<open>doc_unbound\<close> is the reference being resolved, whose unwrapping fails
  with \<^verbatim>\<open>RuntimeError\<close>.
\<close>

theorem unbound_item_key_witness:
  "evaluate_ref_keys (Suc (Suc 0)) 1 (Table []) [Str ''b''] (Some (Table [])) None fresh
     = Some (Inl (UnboundLocalError ''item_key''), fresh) \<and>
   evaluate_ref_keys (Suc (Suc (Suc 0))) 10 (Table [TableItem (Bool True) (Str ''x'') None])
       [Str ''b''] (Some (Table [TableItem (Bool True) (Str ''x'') None])) None fresh
     = Some (Inl (UnboundLocalError ''item_key''), fresh) \<and>
   (\<forall>d. caches [0] (evaluate 20 (20 + d) doc_unbound fresh)
          = Some (Inl (UnboundLocalError ''item_key''), [None]))"
proof -
  have k: "call 1 fresh (\<lambda>d'. evaluate_key (Suc (length ([] :: table_item list) + 0)) d' (Table [])
                          (Str ''b'') fresh)
             = Some (Inr (Str ''b''), fresh)"
    by (simp add: evaluate_key.simps return_def call_def)
  have 1: "evaluate_ref_keys (Suc (Suc (length ([] :: table_item list) + 0))) 1 (Table []) [Str ''b'']
          (Some (Table [])) None fresh
          = Some (Inl (UnboundLocalError ''item_key''), fresh)"
    by (rule unbound_item_key [OF _ k]) simp
  let ?items = "[TableItem (Bool True) (Str ''x'') None]"
  have k2: "call 10 fresh (\<lambda>d'. evaluate_key (Suc (length ?items + 0)) d' (Table ?items)
                          (Str ''b'') fresh)
             = Some (Inr (Str ''b''), fresh)"
    by (simp add: evaluate_key.simps return_def call_def eval_nat_numeral)
  have 2: "evaluate_ref_keys (Suc (Suc (length ?items + 0))) 10 (Table ?items) [Str ''b'']
          (Some (Table ?items)) None fresh
          = Some (Inl (UnboundLocalError ''item_key''), fresh)"
    by (rule unbound_item_key [OF _ k2]) (simp add: printable_def eval_nat_numeral)
  have 3: "\<forall>d. caches [0] (evaluate 20 (20 + d) doc_unbound fresh)
                   = Some (Inl (UnboundLocalError ''item_key''), [None])"
    by (simp add: doc_unbound_def run_defs)
  from 1 2 3 show ?thesis by simp
qed

section \<open>Which entry matches\<close>

lemma scan_int_never_found:
  "evaluate_ref_items n d root (Int' v) items cur ik s = Some (Inr (found, cur', ik'), s1) \<Longrightarrow> \<not> found"
proof (induction items arbitrary: n ik s)
  case Nil
  then show ?case by (cases n) (simp_all add: evaluate_ref_items.simps return_def)
next
  case (Cons it items)
  then obtain m where n: "n = Suc m" by (cases n) (simp_all add: evaluate_ref_items.simps)
  show ?case
  proof (cases "call d s (\<lambda>d'. evaluate_key m d' root (key it) s)")
    case None
    with Cons.prems n show ?thesis by (simp add: evaluate_ref_items.simps)
  next
    case (Some r)
    obtain res s2 where r: "r = (res, s2)" by (cases r)
    show ?thesis
    proof (cases res)
      case (Inl e)
      with Cons.prems n Some r Cons.IH [of m ik s2] show ?thesis
        by (auto simp: evaluate_ref_items.simps print_def outcome_defs split: if_splits)
    next
      case (Inr k)
      have "\<not> (is_Str k \<and> value_eq (Int' v) k)" by (cases k) simp_all
      with Inr Cons.prems n Some r Cons.IH [of m "Some k" s2] show ?thesis
        by (auto simp: evaluate_ref_items.simps print_def outcome_defs split: if_splits)
    qed
  qed
qed

text \<open>
  Claim C4, as the code has it, for both modules. The entry that a scan for the string
  \<open>a\<close> matches is the first one whose key unwraps to \<open>Str a\<close>, a string equal to \<open>a\<close>
  character by character: if the entries before \<open>it\<close> do not match (\<open>passes\<close>, \<open>passes2\<close>:
  the key of each of them fails with an error that the scan catches or unwraps to
  another node) and the key of \<open>it\<close> unwraps to \<open>Str a\<close>, then \<open>it\<close> is the match, whatever
  entries follow it; in \<^verbatim>\<open>evaluator.py\<close> this needs the \<^verbatim>\<open>print\<close> at each of these entries to
  succeed. In \<^verbatim>\<open>evaluator.py\<close> a looked-up \<^verbatim>\<open>Int\<close> matches no entry: the test is
  \<^verbatim>\<open>isinstance(item_key, Str) and key.value == item_key.value\<close>. In \<^verbatim>\<open>evaluator2.py\<close> a key
  that unwraps to an \<^verbatim>\<open>Int\<close> is rejected before any entry is looked at.
\<close>

theorem first_equal_string_key_matches:
  "(passes m d root a cur pre s = Some s1 \<and>
    call d s1 (\<lambda>d'. evaluate_key m d' root (key it) s1) = Some (Inr (Str a), s2) \<and>
    printable d s2 [Some (Str a), Some (key it), cur]
    \<longrightarrow> evaluate_ref_items (length pre + Suc (Suc m)) d root (Str a) (pre @ it # post) cur ik s
          = Some (Inr (True, Some (val it), Some (Str a)), s2)) \<and>
   (passes2 m d root a pre s = Some s1 \<and>
    call d s1 (\<lambda>d'. unwrap m d' root (key it) s1) = Some (Inr (Str a), s2)
    \<longrightarrow> evaluate_ref_items2 (length pre + Suc (Suc m)) d root (Str a) (pre @ it # post) cur s
          = Some (Inr (Some (val it)), s2)) \<and>
   (evaluate_ref_items n d root (Int' v) items cur ik s = Some (Inr (found, cur', ik'), s1)
    \<longrightarrow> \<not> found) \<and>
   (call d s (\<lambda>d'. unwrap n d' root c s) = Some (Inr curry', s1) \<and>
    call d s1 (\<lambda>d'. unwrap n d' root k s1) = Some (Inr (Int' v), s2)
    \<longrightarrow> evaluate_ref_keys2 (Suc n) d root (k # ks) (Some c) s
          = Some (Inl (TypeError ''Expect string key.''), s2))"
proof (intro conjI impI)
  assume h: "passes m d root a cur pre s = Some s1 \<and>
    call d s1 (\<lambda>d'. evaluate_key m d' root (key it) s1) = Some (Inr (Str a), s2) \<and>
    printable d s2 [Some (Str a), Some (key it), cur]"
  then have p: "passes m d root a cur pre s = Some s1"
    and k: "call d s1 (\<lambda>d'. evaluate_key m d' root (key it) s1) = Some (Inr (Str a), s2)"
    and pr: "printable d s2 [Some (Str a), Some (key it), cur]"
    by simp_all
  show "evaluate_ref_items (length pre + Suc (Suc m)) d root (Str a) (pre @ it # post) cur ik s
          = Some (Inr (True, Some (val it), Some (Str a)), s2)"
    by (rule scan_match [OF p k pr])
next
  assume h: "passes2 m d root a pre s = Some s1 \<and>
    call d s1 (\<lambda>d'. unwrap m d' root (key it) s1) = Some (Inr (Str a), s2)"
  then have p: "passes2 m d root a pre s = Some s1"
    and k: "call d s1 (\<lambda>d'. unwrap m d' root (key it) s1) = Some (Inr (Str a), s2)"
    by simp_all
  show "evaluate_ref_items2 (length pre + Suc (Suc m)) d root (Str a) (pre @ it # post) cur s
          = Some (Inr (Some (val it)), s2)"
    by (rule scan2_match [OF p k])
next
  assume "evaluate_ref_items n d root (Int' v) items cur ik s = Some (Inr (found, cur', ik'), s1)"
  then show "\<not> found" by (rule scan_int_never_found)
next
  assume "call d s (\<lambda>d'. unwrap n d' root c s) = Some (Inr curry', s1) \<and>
    call d s1 (\<lambda>d'. unwrap n d' root k s1) = Some (Inr (Int' v), s2)"
  then show "evaluate_ref_keys2 (Suc n) d root (k # ks) (Some c) s
          = Some (Inl (TypeError ''Expect string key.''), s2)"
    by (simp add: evaluate_ref_keys2.simps outcome_defs)
qed

text \<open>
  In \<open>shadowed_entries\<close> the key \<^verbatim>\<open>b\<close> occurs twice and its first entry wins, in both
  modules; the entry \<^verbatim>\<open>a\<close> before it is passed over, and so is an entry \<^verbatim>\<open>ba\<close>, of which \<^verbatim>\<open>b\<close>
  is a prefix. An \<^verbatim>\<open>Int\<close> is not found by \<^verbatim>\<open>evaluator.py\<close> at the entry with the equal \<^verbatim>\<open>Int\<close>.
\<close>

theorem first_equal_string_key_matches_witness:
  "evaluate_ref_items 5 10 (Table shadowed_entries) (Str ''b'')
     (TableItem (Str ''ba'') (Str ''0'') None # shadowed_entries)
     (Some (Table shadowed_entries)) None fresh
     = Some (Inr (True, Some (Str ''first''), Some (Str ''b'')), fresh) \<and>
   evaluate_ref_items2 5 10 (Table shadowed_entries) (Str ''b'')
     (TableItem (Str ''ba'') (Str ''0'') None # shadowed_entries)
     (Some (Table shadowed_entries)) fresh
     = Some (Inr (Some (Str ''first'')), fresh) \<and>
   evaluate_ref_items (Suc (Suc 0)) 10 (Table shadowed_entries) (Int' 1)
     [TableItem (Int' 1) (Str ''x'') None] (Some (Table shadowed_entries)) None fresh
     = Some (Inr (False, Some (Table shadowed_entries), Some (Int' 1)), fresh) \<and>
   evaluate_ref_keys2 (Suc 1) 10 (Table shadowed_entries) [Int' 1]
     (Some (Table [TableItem (Int' 1) (Str ''x'') None])) fresh
     = Some (Inl (TypeError ''Expect string key.''), fresh)"
proof -
  let ?pre = "[TableItem (Str ''ba'') (Str ''0'') None, TableItem (Str ''a'') (Str ''1'') None]"
  let ?it = "TableItem (Str ''b'') (Str ''first'') None"
  let ?post = "[TableItem (Str ''b'') (Str ''second'') None]"
  let ?root = "Table shadowed_entries"
  have pre: "passes 1 10 ?root ''b'' (Some ?root) ?pre fresh = Some fresh"
    by (simp add: shadowed_entries_def run_defs)
  have pre2: "passes2 1 10 ?root ''b'' ?pre fresh = Some fresh"
    by (simp add: shadowed_entries_def run_defs)
  have k: "call 10 fresh (\<lambda>d'. evaluate_key 1 d' ?root (key ?it) fresh) = Some (Inr (Str ''b''), fresh)"
    by (simp add: run_defs)
  have u: "call 10 fresh (\<lambda>d'. unwrap 1 d' ?root (key ?it) fresh) = Some (Inr (Str ''b''), fresh)"
    by (simp add: run_defs)
  have pr: "printable 10 fresh [Some (Str ''b''), Some (key ?it), Some ?root]"
    by (simp add: shadowed_entries_def run_defs)
  have int: "evaluate_ref_items (Suc (Suc 0)) 10 ?root (Int' 1)
               [TableItem (Int' 1) (Str ''x'') None] (Some ?root) None fresh
               = Some (Inr (False, Some ?root, Some (Int' 1)), fresh)"
    by (simp add: shadowed_entries_def run_defs)
  have uc: "call 10 fresh (\<lambda>d'. unwrap 1 d' ?root (Table [TableItem (Int' 1) (Str ''x'') None]) fresh)
              = Some (Inr (Table [TableItem (Int' 1) (Str ''x'') None]), fresh)"
    by (simp add: run_defs)
  have uk: "call 10 fresh (\<lambda>d'. unwrap 1 d' ?root (Int' 1) fresh) = Some (Inr (Int' 1), fresh)"
    by (simp add: run_defs)
  note inst = first_equal_string_key_matches
         [where m = 1 and d = 10 and root = ?root and a = "''b''" and cur = "Some ?root"
            and pre = ?pre and s = fresh and ?s1.0 = fresh and it = ?it and ?s2.0 = fresh
            and post = ?post and ik = None and n = 1
            and c = "Table [TableItem (Int' 1) (Str ''x'') None]"
            and curry' = "Table [TableItem (Int' 1) (Str ''x'') None]" and k = "Int' 1"
            and v = 1 and ks = "[]"]
  from inst pre k pr
  have 1: "evaluate_ref_items (length ?pre + Suc (Suc 1)) 10 ?root (Str ''b'') (?pre @ ?it # ?post)
          (Some ?root) None fresh
          = Some (Inr (True, Some (val ?it), Some (Str ''b'')), fresh)"
    by blast
  from inst pre2 u
  have 2: "evaluate_ref_items2 (length ?pre + Suc (Suc 1)) 10 ?root (Str ''b'') (?pre @ ?it # ?post)
          (Some ?root) fresh
          = Some (Inr (Some (val ?it)), fresh)"
    by blast
  from inst uc uk
  have 3: "evaluate_ref_keys2 (Suc 1) 10 ?root [Int' 1]
             (Some (Table [TableItem (Int' 1) (Str ''x'') None])) fresh
           = Some (Inl (TypeError ''Expect string key.''), fresh)"
    by blast
  from 1 2 have "evaluate_ref_items 5 10 (Table shadowed_entries) (Str ''b'')
     (TableItem (Str ''ba'') (Str ''0'') None # shadowed_entries)
     (Some (Table shadowed_entries)) None fresh
     = Some (Inr (True, Some (Str ''first''), Some (Str ''b'')), fresh) \<and>
   evaluate_ref_items2 5 10 (Table shadowed_entries) (Str ''b'')
     (TableItem (Str ''ba'') (Str ''0'') None # shadowed_entries)
     (Some (Table shadowed_entries)) fresh
     = Some (Inr (Some (Str ''first'')), fresh)"
    by (simp add: shadowed_entries_def eval_nat_numeral)
  with int 3 show ?thesis by blast
qed

text \<open>
  Claim C4 as stated fails: an \<^verbatim>\<open>Int\<close> key does not find the entry with the equal \<^verbatim>\<open>Int\<close>
  key. \<^verbatim>\<open>evaluator.py\<close> ends in \<^verbatim>\<open>KeyError\<close>, \<^verbatim>\<open>evaluator2.py\<close> rejects the key.
\<close>

theorem int_key_never_matches:
  "(\<forall>d. caches [0] (evaluate 20 (20 + d) doc_int_key fresh)
          = Some (Inl (KeyError ''Key not found.'' (Int' 1) (Str ''r'')), [None])) \<and>
   (\<forall>d. caches [0] (evaluate2 20 (20 + d) doc_int_key fresh)
          = Some (Inl (TypeError ''Expect string key.''), [None]))"
  by (simp add: doc_int_key_def run_defs)

section \<open>What the cache holds\<close>

lemma keys_append:
  "evaluate_ref_keys n d root ks cur ik s = Some (Inr (cur1, ik1), s1) \<Longrightarrow>
   evaluate_ref_keys (n + m) d root (ks @ ks') cur ik s
     = evaluate_ref_keys (n + m - length ks) d root ks' cur1 ik1 s1"
proof (induction ks arbitrary: n cur ik s)
  case Nil
  then show ?case by (cases n) (simp_all add: evaluate_ref_keys.simps return_def)
next
  case (Cons k ks)
  then obtain n0 where n: "n = Suc n0" by (cases n) (simp_all add: evaluate_ref_keys.simps)
  from Cons.prems n obtain key' s' where
    k: "call d s (\<lambda>d'. evaluate_key n0 d' root k s) = Some (Inr key', s')"
    by (auto simp: evaluate_ref_keys.simps outcome_defs split: option.splits sum.splits prod.splits)
  from k have k': "call d s (\<lambda>d'. evaluate_key (n0 + m) d' root k s) = Some (Inr key', s')"
    by (rule key_call_more) simp
  show ?case
  proof (cases "\<exists>items. cur = Some (Table items)")
    case True
    then obtain items where cur: "cur = Some (Table items)" by blast
    from Cons.prems n k cur obtain found cur2 ik2 s'' where
      scan: "evaluate_ref_items n0 d root key' items cur ik s' = Some (Inr (found, cur2, ik2), s'')"
      by (auto simp: evaluate_ref_keys.simps outcome_defs split: option.splits sum.splits prod.splits)
    with Cons.prems n k cur have found: found
      and rest: "evaluate_ref_keys n0 d root ks cur2 ik2 s'' = Some (Inr (cur1, ik1), s1)"
      by (auto simp: evaluate_ref_keys.simps outcome_defs split: option.splits if_splits)
    from scan have scan': "evaluate_ref_items (n0 + m) d root key' items cur ik s'
                             = Some (Inr (found, cur2, ik2), s'')"
      by (rule evaluate_ref_items_more)
    from Cons.IH [OF rest] k' scan' found cur n show ?thesis
      by (simp add: evaluate_ref_keys.simps outcome_defs)
  next
    case False
    with Cons.prems n k have na: "cur \<noteq> None \<longrightarrow> (\<forall>xs. cur \<noteq> Some (Array xs))"
      by (auto simp: evaluate_ref_keys.simps outcome_defs split: option.splits)
    with False Cons.prems n k
    have rest: "evaluate_ref_keys n0 d root ks cur ik s' = Some (Inr (cur1, ik1), s1)"
      by (auto simp: evaluate_ref_keys.simps outcome_defs split: option.splits expr.splits)
    from Cons.IH [OF rest] k' False na n show ?thesis
      by (auto simp: evaluate_ref_keys.simps outcome_defs split: option.splits expr.splits)
  qed
qed

lemma keys2_append:
  "evaluate_ref_keys2 n d root ks cur s = Some (Inr cur1, s1) \<Longrightarrow>
   evaluate_ref_keys2 (n + m) d root (ks @ ks') cur s
     = evaluate_ref_keys2 (n + m - length ks) d root ks' cur1 s1"
proof (induction ks arbitrary: n cur s)
  case Nil
  then show ?case by (cases n) (simp_all add: evaluate_ref_keys2.simps return_def)
next
  case (Cons k ks)
  then obtain n0 where n: "n = Suc n0" by (cases n) (simp_all add: evaluate_ref_keys2.simps)
  from Cons.prems n obtain c where cur: "cur = Some c"
    by (cases cur) (simp_all add: evaluate_ref_keys2.simps raise_def)
  from Cons.prems n cur obtain curry' sa where
    c: "call d s (\<lambda>d'. unwrap n0 d' root c s) = Some (Inr curry', sa)"
    by (auto simp: evaluate_ref_keys2.simps outcome_defs split: option.splits sum.splits prod.splits)
  from Cons.prems n cur c obtain key' sb where
    k: "call d sa (\<lambda>d'. unwrap n0 d' root k sa) = Some (Inr key', sb)"
    by (auto simp: evaluate_ref_keys2.simps outcome_defs split: option.splits sum.splits prod.splits)
  from Cons.prems n cur c k have str: "is_Str key'"
    by (auto simp: evaluate_ref_keys2.simps outcome_defs split: if_splits)
  from Cons.prems n cur c k str obtain items where t: "curry' = Table items"
    by (cases curry') (auto simp: evaluate_ref_keys2.simps outcome_defs)
  from Cons.prems n cur c k str t obtain cur2 sc where
    scan: "evaluate_ref_items2 n0 d root key' items cur sb = Some (Inr cur2, sc)"
    and rest: "evaluate_ref_keys2 n0 d root ks cur2 sc = Some (Inr cur1, s1)"
    by (auto simp: evaluate_ref_keys2.simps outcome_defs split: option.splits sum.splits prod.splits)
  from c have c': "call d s (\<lambda>d'. unwrap (n0 + m) d' root c s) = Some (Inr curry', sa)"
    by (rule unwrap_call_more) simp
  from k have k': "call d sa (\<lambda>d'. unwrap (n0 + m) d' root k sa) = Some (Inr key', sb)"
    by (rule unwrap_call_more) simp
  from scan have scan': "evaluate_ref_items2 (n0 + m) d root key' items cur sb = Some (Inr cur2, sc)"
    by (rule evaluate_ref_items2_more)
  from Cons.IH [OF rest] c' k' scan' str t cur n show ?case
    by (simp add: evaluate_ref_keys2.simps outcome_defs)
qed

lemma last_key_lookup:
  assumes k: "call d s1 (\<lambda>d'. evaluate_key n d' root k s1) = Some (Inr (Str a), s2)"
    and p: "passes n d root a (Some (Table (pre @ it # post))) pre s2 = Some s3"
    and m: "call d s3 (\<lambda>d'. evaluate_key n d' root (key it) s3) = Some (Inr (Str a), s4)"
    and pr: "printable d s4 [Some (Str a), Some (key it), Some (Table (pre @ it # post))]"
  shows "evaluate_ref_keys (Suc (length pre + Suc (Suc n))) d root [k]
           (Some (Table (pre @ it # post))) ik s1
         = Some (Inr (Some (val it), Some (Str a)), s4)"
proof -
  from k have k': "call d s1 (\<lambda>d'. evaluate_key (length pre + Suc (Suc n)) d' root k s1)
                     = Some (Inr (Str a), s2)"
    by (rule key_call_more) simp
  note scan = scan_match [OF p m pr, of post ik]
  from k' scan show ?thesis
    by (simp add: evaluate_ref_keys.simps outcome_defs)
qed

lemma last_key_lookup2:
  assumes c: "call d s1 (\<lambda>d'. unwrap n d' root cur s1) = Some (Inr (Table (pre @ it # post)), s2)"
    and k: "call d s2 (\<lambda>d'. unwrap n d' root k s2) = Some (Inr (Str a), s3)"
    and p: "passes2 n d root a pre s3 = Some s4"
    and m: "call d s4 (\<lambda>d'. unwrap n d' root (key it) s4) = Some (Inr (Str a), s5)"
  shows "evaluate_ref_keys2 (Suc (length pre + Suc (Suc n))) d root [k] (Some cur) s1
         = Some (Inr (Some (val it)), s5)"
proof -
  from c have c': "call d s1 (\<lambda>d'. unwrap (length pre + Suc (Suc n)) d' root cur s1)
                     = Some (Inr (Table (pre @ it # post)), s2)"
    by (rule unwrap_call_more) simp
  from k have k': "call d s2 (\<lambda>d'. unwrap (length pre + Suc (Suc n)) d' root k s2)
                     = Some (Inr (Str a), s3)"
    by (rule unwrap_call_more) simp
  note scan = scan2_match [OF p m, of post "Some cur"]
  from c' k' scan show ?thesis
    by (simp add: evaluate_ref_keys2.simps outcome_defs)
qed

lemma cache_evaluator:
  assumes nf: "\<not> evaluated (s i)"
    and ks: "evaluate_ref_keys n d root ks (if m = ABSOLUTE then Some root else parent (s i)) None
               (s(i := (s i)\<lparr>evaluated := True\<rparr>))
             = Some (Inr (Some (Table (pre @ it # post)), ik1), s1)"
    and k: "call d s1 (\<lambda>d'. evaluate_key n d' root k s1) = Some (Inr (Str a), s2)"
    and p: "passes n d root a (Some (Table (pre @ it # post))) pre s2 = Some s3"
    and mt: "call d s3 (\<lambda>d'. evaluate_key n d' root (key it) s3) = Some (Inr (Str a), s4)"
    and pr: "printable d s4 [Some (Str a), Some (key it), Some (Table (pre @ it # post))]"
  shows "evaluate_ref (length ks + length pre + n + 4) d root i (ks @ [k]) m s
           = Some (Inr (), s4(i := (s4 i)\<lparr>cache := Some (val it)\<rparr>))"
proof -
  let ?s0 = "s(i := (s i)\<lparr>evaluated := True\<rparr>)"
  let ?start = "if m = ABSOLUTE then Some root else parent (s i)"
  have "evaluate_ref_keys (n + (length ks + length pre + 3)) d root (ks @ [k]) ?start None ?s0
          = evaluate_ref_keys (n + (length ks + length pre + 3) - length ks) d root [k]
              (Some (Table (pre @ it # post))) ik1 s1"
    using ks by (rule keys_append)
  also have "n + (length ks + length pre + 3) - length ks = Suc (length pre + Suc (Suc n))"
    by simp
  also have "evaluate_ref_keys (Suc (length pre + Suc (Suc n))) d root [k]
               (Some (Table (pre @ it # post))) ik1 s1
             = Some (Inr (Some (val it), Some (Str a)), s4)"
    using k p mt pr by (rule last_key_lookup)
  finally have keys: "evaluate_ref_keys (n + (length ks + length pre + 3)) d root (ks @ [k]) ?start
                        None ?s0
                      = Some (Inr (Some (val it), Some (Str a)), s4)" .
  have fuel: "length ks + length pre + n + 4 = Suc (n + (length ks + length pre + 3))" by simp
  have "evaluate_ref (Suc N) d root i (ks @ [k]) m s
          = Some (Inr (), s4(i := (s4 i)\<lparr>cache := Some (val it)\<rparr>))"
    if "evaluate_ref_keys N d root (ks @ [k]) ?start None ?s0
          = Some (Inr (Some (val it), Some (Str a)), s4)" for N
    using nf that by (auto simp: evaluate_ref.simps Let_def outcome_defs split: if_splits)
  from this [OF keys] show ?thesis by (simp only: fuel)
qed

lemma cache_evaluator2:
  assumes nf: "\<not> evaluated (s i)"
    and ks: "evaluate_ref_keys2 n d root ks (if m = ABSOLUTE then Some root else parent (s i))
               (s(i := (s i)\<lparr>evaluated := True\<rparr>))
             = Some (Inr (Some cur), s1)"
    and c: "call d s1 (\<lambda>d'. unwrap n d' root cur s1) = Some (Inr (Table (pre @ it # post)), s2)"
    and k: "call d s2 (\<lambda>d'. unwrap n d' root k s2) = Some (Inr (Str a), s3)"
    and p: "passes2 n d root a pre s3 = Some s4"
    and mt: "call d s4 (\<lambda>d'. unwrap n d' root (key it) s4) = Some (Inr (Str a), s5)"
  shows "evaluate_ref2 (length ks + length pre + n + 4) d root i (ks @ [k]) m s
           = Some (Inr (), s5(i := (s5 i)\<lparr>cache := Some (val it)\<rparr>))"
proof -
  let ?s0 = "s(i := (s i)\<lparr>evaluated := True\<rparr>)"
  let ?start = "if m = ABSOLUTE then Some root else parent (s i)"
  have "evaluate_ref_keys2 (n + (length ks + length pre + 3)) d root (ks @ [k]) ?start ?s0
          = evaluate_ref_keys2 (n + (length ks + length pre + 3) - length ks) d root [k]
              (Some cur) s1"
    using ks by (rule keys2_append)
  also have "n + (length ks + length pre + 3) - length ks = Suc (length pre + Suc (Suc n))"
    by simp
  also have "evaluate_ref_keys2 (Suc (length pre + Suc (Suc n))) d root [k] (Some cur) s1
             = Some (Inr (Some (val it)), s5)"
    using c k p mt by (rule last_key_lookup2)
  finally have keys: "evaluate_ref_keys2 (n + (length ks + length pre + 3)) d root (ks @ [k]) ?start ?s0
                      = Some (Inr (Some (val it)), s5)" .
  have fuel: "length ks + length pre + n + 4 = Suc (n + (length ks + length pre + 3))" by simp
  have "evaluate_ref2 (Suc N) d root i (ks @ [k]) m s
          = Some (Inr (), s5(i := (s5 i)\<lparr>cache := Some (val it)\<rparr>))"
    if "evaluate_ref_keys2 N d root (ks @ [k]) ?start ?s0 = Some (Inr (Some (val it)), s5)" for N
    using nf that by (auto simp: evaluate_ref2.simps Let_def outcome_defs split: if_splits)
  from this [OF keys] show ?thesis by (simp only: fuel)
qed

text \<open>
  Claim C2, as the code has it, for both modules. Take a reference that is not yet
  evaluated, with key segments \<open>ks\<close> and then \<open>k\<close>. Let the lookups of \<open>ks\<close> end on a table
  (in \<^verbatim>\<open>evaluator2.py\<close>: on a node that unwraps to a table) with the entries
  \<open>pre @ it # post\<close>, let \<open>k\<close> unwrap to the string \<open>a\<close>, let the entries \<open>pre\<close> not match \<open>a\<close>
  and let the key of \<open>it\<close> unwrap to \<open>a\<close>. Then the evaluation of the reference succeeds
  and its cache is \<open>val it\<close>, the value of the matched entry exactly as it stands in the
  tree: nothing unwraps it, so it is a reference whenever that value is one.
  \<^verbatim>\<open>evaluator2.py\<close> unwraps the table it searches, never the value it stores. The state is
  otherwise the one that the lookups left. A reference with no key segment caches its
  starting target.
\<close>

theorem cache_is_matched_value_as_it_stands:
  "(\<not> evaluated (s i) \<and>
    evaluate_ref_keys n d root ks (if m = ABSOLUTE then Some root else parent (s i)) None
      (s(i := (s i)\<lparr>evaluated := True\<rparr>))
      = Some (Inr (Some (Table (pre @ it # post)), ik1), s1) \<and>
    call d s1 (\<lambda>d'. evaluate_key n d' root k s1) = Some (Inr (Str a), s2) \<and>
    passes n d root a (Some (Table (pre @ it # post))) pre s2 = Some s3 \<and>
    call d s3 (\<lambda>d'. evaluate_key n d' root (key it) s3) = Some (Inr (Str a), s4) \<and>
    printable d s4 [Some (Str a), Some (key it), Some (Table (pre @ it # post))]
    \<longrightarrow> evaluate_ref (length ks + length pre + n + 4) d root i (ks @ [k]) m s
          = Some (Inr (), s4(i := (s4 i)\<lparr>cache := Some (val it)\<rparr>))) \<and>
   (\<not> evaluated (s i) \<and>
    evaluate_ref_keys2 n d root ks (if m = ABSOLUTE then Some root else parent (s i))
      (s(i := (s i)\<lparr>evaluated := True\<rparr>))
      = Some (Inr (Some cur), s1) \<and>
    call d s1 (\<lambda>d'. unwrap n d' root cur s1) = Some (Inr (Table (pre @ it # post)), s2) \<and>
    call d s2 (\<lambda>d'. unwrap n d' root k s2) = Some (Inr (Str a), s3) \<and>
    passes2 n d root a pre s3 = Some s4 \<and>
    call d s4 (\<lambda>d'. unwrap n d' root (key it) s4) = Some (Inr (Str a), s5)
    \<longrightarrow> evaluate_ref2 (length ks + length pre + n + 4) d root i (ks @ [k]) m s
          = Some (Inr (), s5(i := (s5 i)\<lparr>cache := Some (val it)\<rparr>))) \<and>
   (\<not> evaluated (s i)
    \<longrightarrow> evaluate_ref (Suc (Suc n)) d root i [] m s
          = Some (Inr (), s(i := (s i)\<lparr>evaluated := True,
                                      cache := (if m = ABSOLUTE then Some root else parent (s i))\<rparr>)) \<and>
        evaluate_ref2 (Suc (Suc n)) d root i [] m s
          = Some (Inr (), s(i := (s i)\<lparr>evaluated := True,
                                      cache := (if m = ABSOLUTE then Some root else parent (s i))\<rparr>)))"
proof (intro conjI impI)
  assume h: "\<not> evaluated (s i) \<and>
    evaluate_ref_keys n d root ks (if m = ABSOLUTE then Some root else parent (s i)) None
      (s(i := (s i)\<lparr>evaluated := True\<rparr>))
      = Some (Inr (Some (Table (pre @ it # post)), ik1), s1) \<and>
    call d s1 (\<lambda>d'. evaluate_key n d' root k s1) = Some (Inr (Str a), s2) \<and>
    passes n d root a (Some (Table (pre @ it # post))) pre s2 = Some s3 \<and>
    call d s3 (\<lambda>d'. evaluate_key n d' root (key it) s3) = Some (Inr (Str a), s4) \<and>
    printable d s4 [Some (Str a), Some (key it), Some (Table (pre @ it # post))]"
  then have nf: "\<not> evaluated (s i)"
    and ks: "evaluate_ref_keys n d root ks (if m = ABSOLUTE then Some root else parent (s i)) None
               (s(i := (s i)\<lparr>evaluated := True\<rparr>))
             = Some (Inr (Some (Table (pre @ it # post)), ik1), s1)"
    and k: "call d s1 (\<lambda>d'. evaluate_key n d' root k s1) = Some (Inr (Str a), s2)"
    and p: "passes n d root a (Some (Table (pre @ it # post))) pre s2 = Some s3"
    and mt: "call d s3 (\<lambda>d'. evaluate_key n d' root (key it) s3) = Some (Inr (Str a), s4)"
    and pr: "printable d s4 [Some (Str a), Some (key it), Some (Table (pre @ it # post))]"
    by simp_all
  show "evaluate_ref (length ks + length pre + n + 4) d root i (ks @ [k]) m s
          = Some (Inr (), s4(i := (s4 i)\<lparr>cache := Some (val it)\<rparr>))"
    by (rule cache_evaluator [OF nf ks k p mt pr])
next
  assume h: "\<not> evaluated (s i) \<and>
    evaluate_ref_keys2 n d root ks (if m = ABSOLUTE then Some root else parent (s i))
      (s(i := (s i)\<lparr>evaluated := True\<rparr>))
      = Some (Inr (Some cur), s1) \<and>
    call d s1 (\<lambda>d'. unwrap n d' root cur s1) = Some (Inr (Table (pre @ it # post)), s2) \<and>
    call d s2 (\<lambda>d'. unwrap n d' root k s2) = Some (Inr (Str a), s3) \<and>
    passes2 n d root a pre s3 = Some s4 \<and>
    call d s4 (\<lambda>d'. unwrap n d' root (key it) s4) = Some (Inr (Str a), s5)"
  then have nf: "\<not> evaluated (s i)"
    and ks: "evaluate_ref_keys2 n d root ks (if m = ABSOLUTE then Some root else parent (s i))
               (s(i := (s i)\<lparr>evaluated := True\<rparr>))
             = Some (Inr (Some cur), s1)"
    and c: "call d s1 (\<lambda>d'. unwrap n d' root cur s1) = Some (Inr (Table (pre @ it # post)), s2)"
    and k: "call d s2 (\<lambda>d'. unwrap n d' root k s2) = Some (Inr (Str a), s3)"
    and p: "passes2 n d root a pre s3 = Some s4"
    and mt: "call d s4 (\<lambda>d'. unwrap n d' root (key it) s4) = Some (Inr (Str a), s5)"
    by simp_all
  show "evaluate_ref2 (length ks + length pre + n + 4) d root i (ks @ [k]) m s
          = Some (Inr (), s5(i := (s5 i)\<lparr>cache := Some (val it)\<rparr>))"
    by (rule cache_evaluator2 [OF nf ks c k p mt])
next
  assume "\<not> evaluated (s i)"
  then show "evaluate_ref (Suc (Suc n)) d root i [] m s
          = Some (Inr (), s(i := (s i)\<lparr>evaluated := True,
                                      cache := (if m = ABSOLUTE then Some root else parent (s i))\<rparr>))"
    by (simp add: evaluate_ref.simps evaluate_ref_keys.simps Let_def outcome_defs)
next
  assume "\<not> evaluated (s i)"
  then show "evaluate_ref2 (Suc (Suc n)) d root i [] m s
          = Some (Inr (), s(i := (s i)\<lparr>evaluated := True,
                                      cache := (if m = ABSOLUTE then Some root else parent (s i))\<rparr>))"
    by (simp add: evaluate_ref2.simps evaluate_ref_keys2.simps Let_def outcome_defs)
qed

text \<open>
  In \<open>doc_chain\<close> the reference at \<^verbatim>\<open>a\<close> looks up \<^verbatim>\<open>b\<close>, whose value is the reference
  \<^verbatim>\<open>Ref(["c"])\<close>: that reference, not the string it leads to, is what the cache gets. In
  \<open>doc_indirect_table\<close> the first segment of the reference at \<^verbatim>\<open>r\<close> ends on the reference
  \<^verbatim>\<open>Ref(["u"])\<close>; \<^verbatim>\<open>evaluator2.py\<close> unwraps it to the table at \<^verbatim>\<open>u\<close>, evaluating it on the
  way, looks up \<^verbatim>\<open>b\<close> there and caches the value found, the reference \<^verbatim>\<open>Ref(["c"])\<close>, as it
  stands.
\<close>

theorem cache_is_matched_value_as_it_stands_witness:
  "evaluate_ref 6 10 doc_chain 0 [Str ''b''] ABSOLUTE fresh
     = Some (Inr (), fresh(0 := \<lparr>parent = None, cache = Some (Ref 1 [Str ''c''] ABSOLUTE),
                                 evaluated = True\<rparr>)) \<and>
   evaluate_ref2 6 10 doc_chain 0 [Str ''b''] ABSOLUTE fresh
     = Some (Inr (), fresh(0 := \<lparr>parent = None, cache = Some (Ref 1 [Str ''c''] ABSOLUTE),
                                 evaluated = True\<rparr>)) \<and>
   evaluate_ref 3 10 doc_chain 0 [] ABSOLUTE fresh
     = Some (Inr (), fresh(0 := \<lparr>parent = None, cache = Some doc_chain, evaluated = True\<rparr>)) \<and>
   evaluate_ref2 3 10 doc_chain 0 [] ABSOLUTE fresh
     = Some (Inr (), fresh(0 := \<lparr>parent = None, cache = Some doc_chain, evaluated = True\<rparr>)) \<and>
   caches [0, 1] (evaluate_ref2 15 10 doc_indirect_table 0 [Str ''t'', Str ''b''] ABSOLUTE fresh)
     = Some (Inr (), [Some (Ref 2 [Str ''c''] ABSOLUTE),
                      Some (Table [TableItem (Str ''b'') (Ref 2 [Str ''c''] ABSOLUTE) None])])"
proof -
  have indirect:
    "caches [0, 1] (evaluate_ref2 15 10 doc_indirect_table 0 [Str ''t'', Str ''b''] ABSOLUTE fresh)
       = Some (Inr (), [Some (Ref 2 [Str ''c''] ABSOLUTE),
                        Some (Table [TableItem (Str ''b'') (Ref 2 [Str ''c''] ABSOLUTE) None])])"
  proof -
    let ?it = "TableItem (Str ''b'') (Ref 2 [Str ''c''] ABSOLUTE) None"
    let ?s0 = "fresh(0 := (fresh 0)\<lparr>evaluated := True\<rparr>)"
    let ?s2 = "?s0(1 := \<lparr>parent = None, cache = Some (Table ([] @ ?it # [])), evaluated = True\<rparr>)"
    have nf: "\<not> evaluated (fresh 0)" by (simp add: fresh_def)
    have ks: "evaluate_ref_keys2 10 10 doc_indirect_table [Str ''t'']
                (if ABSOLUTE = ABSOLUTE then Some doc_indirect_table else parent (fresh 0)) ?s0
              = Some (Inr (Some (Ref 1 [Str ''u''] ABSOLUTE)), ?s0)"
      by (simp add: doc_indirect_table_def run_defs)
    have c: "call 10 ?s0 (\<lambda>d'. unwrap 10 d' doc_indirect_table (Ref 1 [Str ''u''] ABSOLUTE) ?s0)
               = Some (Inr (Table ([] @ ?it # [])), ?s2)"
      by (simp add: doc_indirect_table_def run_defs)
    have k: "call 10 ?s2 (\<lambda>d'. unwrap 10 d' doc_indirect_table (Str ''b'') ?s2)
               = Some (Inr (Str ''b''), ?s2)"
      by (simp add: unwrap.simps return_def call_def eval_nat_numeral)
    have p: "passes2 10 10 doc_indirect_table ''b'' [] ?s2 = Some ?s2"
      by simp
    have mt: "call 10 ?s2 (\<lambda>d'. unwrap 10 d' doc_indirect_table (key ?it) ?s2)
                = Some (Inr (Str ''b''), ?s2)"
      by (simp add: unwrap.simps return_def call_def eval_nat_numeral)
    note inst = cache_is_matched_value_as_it_stands
      [where s = fresh and i = 0 and n = 10 and d = 10 and root = doc_indirect_table
         and ks = "[Str ''t'']" and m = ABSOLUTE and pre = "[]" and it = ?it and post = "[]"
         and ?s1.0 = ?s0 and k = "Str ''b''" and a = "''b''" and ?s2.0 = ?s2 and ?s3.0 = ?s2
         and ?s4.0 = ?s2 and cur = "Ref 1 [Str ''u''] ABSOLUTE" and ?s5.0 = ?s2,
       THEN conjunct2, THEN conjunct1, THEN mp,
       OF conjI [OF nf conjI [OF ks conjI [OF c conjI [OF k conjI [OF p mt]]]]]]
    have e: "length [Str ''t''] + length ([] :: table_item list) + 10 + 4 = (15::nat)" by simp
    from inst show ?thesis
      unfolding e by (simp add: caches_def fresh_def)
  qed
  let ?pre = "[TableItem (Str ''a'') (Ref 0 [Str ''b''] ABSOLUTE) None]"
  let ?it = "TableItem (Str ''b'') (Ref 1 [Str ''c''] ABSOLUTE) None"
  let ?post = "[TableItem (Str ''c'') (Str ''1'') None]"
  let ?s0 = "fresh(0 := (fresh 0)\<lparr>evaluated := True\<rparr>)"
  have doc: "doc_chain = Table (?pre @ ?it # ?post)" by (simp add: doc_chain_def)
  have nf: "\<not> evaluated (fresh 0)" by (simp add: fresh_def)
  have ks: "evaluate_ref_keys 1 10 doc_chain [] (if ABSOLUTE = ABSOLUTE then Some doc_chain else parent (fresh 0))
              None ?s0 = Some (Inr (Some (Table (?pre @ ?it # ?post)), None), ?s0)"
    by (simp add: doc_chain_def evaluate_ref_keys.simps return_def)
  have ks2: "evaluate_ref_keys2 1 10 doc_chain [] (if ABSOLUTE = ABSOLUTE then Some doc_chain else parent (fresh 0))
              ?s0 = Some (Inr (Some doc_chain), ?s0)"
    by (simp add: evaluate_ref_keys2.simps return_def)
  have k: "call 10 ?s0 (\<lambda>d'. evaluate_key 1 d' doc_chain (Str ''b'') ?s0) = Some (Inr (Str ''b''), ?s0)"
    by (simp add: evaluate_key.simps return_def call_def eval_nat_numeral)
  have p: "passes 1 10 doc_chain ''b'' (Some (Table (?pre @ ?it # ?post))) ?pre ?s0 = Some ?s0"
    by (simp add: doc_chain_def run_defs)
  have mt: "call 10 ?s0 (\<lambda>d'. evaluate_key 1 d' doc_chain (key ?it) ?s0) = Some (Inr (Str ''b''), ?s0)"
    by (simp add: evaluate_key.simps return_def call_def eval_nat_numeral)
  have pr: "printable 10 ?s0 [Some (Str ''b''), Some (key ?it), Some (Table (?pre @ ?it # ?post))]"
    by (simp add: run_defs)
  have c2: "call 10 ?s0 (\<lambda>d'. unwrap 1 d' doc_chain doc_chain ?s0)
              = Some (Inr (Table (?pre @ ?it # ?post)), ?s0)"
    by (simp add: doc_chain_def unwrap.simps return_def call_def eval_nat_numeral)
  have k2: "call 10 ?s0 (\<lambda>d'. unwrap 1 d' doc_chain (Str ''b'') ?s0) = Some (Inr (Str ''b''), ?s0)"
    by (simp add: unwrap.simps return_def call_def eval_nat_numeral)
  have p2: "passes2 1 10 doc_chain ''b'' ?pre ?s0 = Some ?s0"
    by (simp add: doc_chain_def run_defs)
  have mt2: "call 10 ?s0 (\<lambda>d'. unwrap 1 d' doc_chain (key ?it) ?s0) = Some (Inr (Str ''b''), ?s0)"
    by (simp add: unwrap.simps return_def call_def eval_nat_numeral)
  note inst = cache_is_matched_value_as_it_stands
    [where s = fresh and i = 0 and n = 1 and d = 10 and root = doc_chain and ks = "[]"
       and m = ABSOLUTE and pre = ?pre and it = ?it and post = ?post and ?ik1.0 = None
       and ?s1.0 = ?s0 and k = "Str ''b''" and a = "''b''" and ?s2.0 = ?s0 and ?s3.0 = ?s0
       and ?s4.0 = ?s0 and cur = doc_chain and ?s5.0 = ?s0]
  from inst nf ks k p mt pr
  have 1: "evaluate_ref (length ([] :: expr list) + length ?pre + 1 + 4) 10 doc_chain 0 ([] @ [Str ''b''])
             ABSOLUTE fresh
           = Some (Inr (), ?s0(0 := (?s0 0)\<lparr>cache := Some (val ?it)\<rparr>))"
    by simp
  from inst nf ks2 c2 k2 p2 mt2
  have 2: "evaluate_ref2 (length ([] :: expr list) + length ?pre + 1 + 4) 10 doc_chain 0 ([] @ [Str ''b''])
             ABSOLUTE fresh
           = Some (Inr (), ?s0(0 := (?s0 0)\<lparr>cache := Some (val ?it)\<rparr>))"
    by simp
  note 3 = inst [THEN conjunct2, THEN conjunct2, THEN mp, OF nf]
  have e: "length ([] :: expr list) + length ?pre + 1 + 4 = (6::nat)" by simp
  from 1 2 3 have "evaluate_ref 6 10 doc_chain 0 [Str ''b''] ABSOLUTE fresh
     = Some (Inr (), fresh(0 := \<lparr>parent = None, cache = Some (Ref 1 [Str ''c''] ABSOLUTE),
                                 evaluated = True\<rparr>)) \<and>
   evaluate_ref2 6 10 doc_chain 0 [Str ''b''] ABSOLUTE fresh
     = Some (Inr (), fresh(0 := \<lparr>parent = None, cache = Some (Ref 1 [Str ''c''] ABSOLUTE),
                                 evaluated = True\<rparr>)) \<and>
   evaluate_ref 3 10 doc_chain 0 [] ABSOLUTE fresh
     = Some (Inr (), fresh(0 := \<lparr>parent = None, cache = Some doc_chain, evaluated = True\<rparr>)) \<and>
   evaluate_ref2 3 10 doc_chain 0 [] ABSOLUTE fresh
     = Some (Inr (), fresh(0 := \<lparr>parent = None, cache = Some doc_chain, evaluated = True\<rparr>))"
    unfolding e by (simp add: fresh_def eval_nat_numeral)
  with indirect show ?thesis by blast
qed

text \<open>
  \<^verbatim>\<open>evaluator.py\<close> unwraps neither: on the same reference its second segment meets a
  target that is no table and is passed over (claim C5), and the cache is the reference
  \<^verbatim>\<open>Ref(["u"])\<close> that the first segment ended on, which is left unevaluated.
\<close>

lemma indirect_table_evaluator:
  "caches [0, 1] (evaluate_ref 15 10 doc_indirect_table 0 [Str ''t'', Str ''b''] ABSOLUTE fresh)
     = Some (Inr (), [Some (Ref 1 [Str ''u''] ABSOLUTE), None])"
  by (simp add: doc_indirect_table_def run_defs)

text \<open>
  Claim C2 as stated fails: in \<open>doc_chain\<close> the entry \<^verbatim>\<open>a\<close> refers to \<^verbatim>\<open>b\<close>, whose value is
  itself a reference; after a successful evaluation of the document the cache of the
  first reference is that second reference, in both modules.
\<close>

theorem chain_caches_reference:
  "(\<forall>d. caches [0, 1] (evaluate 20 (20 + d) doc_chain fresh)
          = Some (Inr doc_chain, [Some (Ref 1 [Str ''c''] ABSOLUTE), Some (Str ''1'')])) \<and>
   (\<forall>d. caches [0, 1] (evaluate2 20 (20 + d) doc_chain fresh)
          = Some (Inr doc_chain, [Some (Ref 1 [Str ''c''] ABSOLUTE), Some (Str ''1'')]))"
  by (simp add: doc_chain_def run_defs)

section \<open>Evaluating twice\<close>

lemma extends_refl [simp]: "extends s s"
  by (simp add: extends_def)

lemma extends_trans: "extends s t \<Longrightarrow> extends t u \<Longrightarrow> extends s u"
  by (simp add: extends_def)

lemma extends_flag [simp]: "extends s (s(i := (s i)\<lparr>evaluated := True\<rparr>))"
  by (simp add: extends_def)

lemma extends_cache [simp]: "extends s (s(i := (s i)\<lparr>cache := c\<rparr>))"
  by (simp add: extends_def)

lemma grows_None [simp]: "grows s None"
  by (simp add: grows_def)

lemma grows_Some [simp]: "grows s (Some (r, t)) = extends s t"
  by (simp add: grows_def)

lemma grows_return [simp]: "grows s (return x s)"
  by (simp add: return_def)

lemma grows_raise [simp]: "grows s (raise e s)"
  by (simp add: raise_def)

lemma grows_print [simp]: "grows s (print d args s)"
  by (simp add: print_def)

lemma grows_call: "(\<And>d'. grows s (f d')) \<Longrightarrow> grows s (call d s f)"
  by (cases d) simp_all

lemma grows_weaken: "extends s t \<Longrightarrow> grows t out \<Longrightarrow> grows s out"
  by (auto simp: grows_def intro: extends_trans split: option.splits)

lemma grows_and_then:
  assumes "grows s m"
    and "\<And>x t. m = Some (Inr x, t) \<Longrightarrow> grows t (f x t)"
  shows "grows s (and_then m f)"
proof (cases m)
  case None
  then show ?thesis by (simp add: and_then_def)
next
  case (Some r)
  obtain res t where r: "r = (res, t)" by (cases r)
  from assms(1) Some r have ext: "extends s t" by simp
  show ?thesis
  proof (cases res)
    case (Inl e)
    with Some r ext show ?thesis by (simp add: and_then_def)
  next
    case (Inr x)
    with Some r have "and_then m f = f x t" by (simp add: and_then_def)
    moreover from Some r Inr have "grows t (f x t)" by (intro assms(2)) simp
    ultimately show ?thesis using ext by (auto intro: grows_weaken)
  qed
qed

lemma grows_all:
  "(\<forall>d root e s. grows s (evaluate_expr n d root e s)) \<and>
   (\<forall>d root i ks m s. grows s (evaluate_ref n d root i ks m s)) \<and>
   (\<forall>d root ks cur ik s. grows s (evaluate_ref_keys n d root ks cur ik s)) \<and>
   (\<forall>d root a its cur ik s. grows s (evaluate_ref_items n d root a its cur ik s)) \<and>
   (\<forall>d root e s. grows s (evaluate_key n d root e s)) \<and>
   (\<forall>d root its s. grows s (evaluate_table n d root its s))"
proof (induction n)
  case 0
  show ?case by (simp add: evaluator_simps)
next
  case (Suc n)
  then have IH1: "\<And>d root e s. grows s (evaluate_expr n d root e s)"
    and IH2: "\<And>d root i ks m s. grows s (evaluate_ref n d root i ks m s)"
    and IH3: "\<And>d root ks cur ik s. grows s (evaluate_ref_keys n d root ks cur ik s)"
    and IH4: "\<And>d root a its cur ik s. grows s (evaluate_ref_items n d root a its cur ik s)"
    and IH5: "\<And>d root e s. grows s (evaluate_key n d root e s)"
    and IH6: "\<And>d root its s. grows s (evaluate_table n d root its s)"
    by simp_all
  have c1: "grows s (call d s (\<lambda>d'. evaluate_expr n d' root e s))" for d root e s
    by (rule grows_call) (rule IH1)
  have c5: "grows s (call d s (\<lambda>d'. evaluate_key n d' root e s))" for d root e s
    by (rule grows_call) (rule IH5)
  have 1: "grows s (evaluate_expr (Suc n) d root e s)" for d root e s
    by (cases e) (simp_all add: evaluate_expr.simps IH2 IH6 grows_call)
  have 2: "grows s (evaluate_ref (Suc n) d root i ks m s)" for d root i ks m s
  proof (cases "evaluated (s i)")
    case True
    then show ?thesis by (simp add: evaluate_ref.simps)
  next
    case False
    let ?s1 = "s(i := (s i)\<lparr>evaluated := True\<rparr>)"
    have "grows ?s1 (and_then (evaluate_ref_keys n d root ks (if m = ABSOLUTE then Some root else parent (?s1 i)) None ?s1)
             (\<lambda>(current', _) s2. return () (s2(i := (s2 i)\<lparr>cache := current'\<rparr>))))"
      by (rule grows_and_then [OF IH3]) (auto simp: return_def)
    then have "grows s (and_then (evaluate_ref_keys n d root ks (if m = ABSOLUTE then Some root else parent (?s1 i)) None ?s1)
             (\<lambda>(current', _) s2. return () (s2(i := (s2 i)\<lparr>cache := current'\<rparr>))))"
      by (rule grows_weaken [rotated]) simp
    with False show ?thesis by (simp add: evaluate_ref.simps Let_def)
  qed
  have 3: "grows s (evaluate_ref_keys (Suc n) d root ks cur ik s)" for d root ks cur ik s
  proof (cases ks)
    case Nil
    then show ?thesis by (simp add: evaluate_ref_keys.simps)
  next
    case (Cons k ks')
    show ?thesis
      unfolding evaluate_ref_keys.simps Cons list.case
      by (rule grows_and_then [OF c5])
         (auto intro!: grows_and_then IH4 IH3 split: option.splits expr.splits)
  qed
  have 4: "grows s (evaluate_ref_items (Suc n) d root a its cur ik s)" for d root a its cur ik s
  proof (cases its)
    case Nil
    then show ?thesis by (simp add: evaluate_ref_items.simps)
  next
    case (Cons it its')
    show ?thesis
    proof (cases "call d s (\<lambda>d'. evaluate_key n d' root (key it) s)")
      case None
      with Cons show ?thesis by (simp add: evaluate_ref_items.simps)
    next
      case (Some p)
      obtain res s1 where p: "p = (res, s1)" by (cases p)
      from c5 [of s d root "key it"] Some p have ext: "extends s s1" by simp
      have "grows s1 (evaluate_ref_items (Suc n) d root a its cur ik s)"
        unfolding evaluate_ref_items.simps Cons list.case Some p option.case prod.case
        by (cases res) (auto intro!: grows_and_then IH4)
      with ext show ?thesis by (rule grows_weaken)
    qed
  qed
  have 5: "grows s (evaluate_key (Suc n) d root e s)" for d root e s
  proof (cases "is_Str e \<or> is_Int e")
    case True
    then show ?thesis by (simp add: evaluate_key.simps)
  next
    case False
    then show ?thesis
      unfolding evaluate_key.simps
      by (cases e) (auto intro!: grows_and_then c1 IH5 split: option.splits)
  qed
  have 6: "grows s (evaluate_table (Suc n) d root its s)" for d root its s
  proof (cases its)
    case Nil
    then show ?thesis by (simp add: evaluate_table.simps)
  next
    case (Cons it its')
    show ?thesis
      unfolding evaluate_table.simps Cons list.case
      by (intro grows_and_then c1 IH6)
  qed
  show ?case by (simp add: 1 2 3 4 5 6)
qed

lemma evaluate_ref_extends:
  "evaluate_ref n d root i ks m s = Some (r, t) \<Longrightarrow> extends s t"
  using grows_all [of n] by (metis grows_Some)

lemma evaluate_expr_extends:
  "evaluate_expr n d root e s = Some (r, t) \<Longrightarrow> extends s t"
  using grows_all [of n] by (metis grows_Some)

lemma evaluate_table_extends:
  "evaluate_table n d root its s = Some (r, t) \<Longrightarrow> extends s t"
  using grows_all [of n] by (metis grows_Some)

lemma evaluate_ref_keys_extends:
  "evaluate_ref_keys n d root ks cur ik s = Some (r, t) \<Longrightarrow> extends s t"
  using grows_all [of n] by (metis grows_Some)

lemma and_then_Inr:
  "and_then m f = Some (Inr y, t) \<Longrightarrow> \<exists>x s1. m = Some (Inr x, s1) \<and> f x s1 = Some (Inr y, t)"
  by (auto simp: and_then_def split: option.splits sum.splits)

lemma call_Inr:
  "call d s f = Some (Inr x, t) \<Longrightarrow> \<exists>d'. d = Suc d' \<and> f d' = Some (Inr x, t)"
  by (cases d) (simp_all add: raise_def)

lemma evaluate_ref_sets_flag:
  assumes "evaluate_ref n d root i ks m s = Some (Inr (), t)"
  shows "evaluated (t i) \<and> n \<noteq> 0"
proof (cases n)
  case 0
  with assms show ?thesis by (simp add: evaluate_ref.simps)
next
  case (Suc k)
  show ?thesis
  proof (cases "evaluated (s i)")
    case True
    with assms Suc show ?thesis by (simp add: evaluate_ref.simps return_def)
  next
    case False
    let ?s1 = "s(i := (s i)\<lparr>evaluated := True\<rparr>)"
    from assms Suc False obtain x s2 where
      keys: "evaluate_ref_keys k d root ks (if m = ABSOLUTE then Some root else parent (?s1 i)) None ?s1
               = Some (Inr x, s2)"
      and fin: "(\<lambda>(current', _) s2. return () (s2(i := (s2 i)\<lparr>cache := current'\<rparr>))) x s2
               = Some (Inr (), t)"
      by (auto simp: evaluate_ref.simps Let_def dest!: and_then_Inr)
    from evaluate_ref_keys_extends [OF keys] have "evaluated (s2 i)"
      by (simp add: extends_def)
    with fin Suc show ?thesis by (auto simp: return_def split: prod.splits)
  qed
qed

lemma retraverse:
  "(\<forall>d root e s s' t. evaluate_expr n d root e s = Some (Inr (), s') \<longrightarrow> extends s' t
      \<longrightarrow> evaluate_expr n d root e t = Some (Inr (), t)) \<and>
   (\<forall>d root its s s' t. evaluate_table n d root its s = Some (Inr (), s') \<longrightarrow> extends s' t
      \<longrightarrow> evaluate_table n d root its t = Some (Inr (), t))"
proof (induction n)
  case 0
  show ?case by (simp add: evaluator_simps)
next
  case (Suc n)
  then have IH1: "\<And>d root e s s' t. evaluate_expr n d root e s = Some (Inr (), s') \<Longrightarrow> extends s' t
      \<Longrightarrow> evaluate_expr n d root e t = Some (Inr (), t)"
    and IH2: "\<And>d root its s s' t. evaluate_table n d root its s = Some (Inr (), s') \<Longrightarrow> extends s' t
      \<Longrightarrow> evaluate_table n d root its t = Some (Inr (), t)"
    by blast+
  have 1: "evaluate_expr (Suc n) d root e t = Some (Inr (), t)"
    if run: "evaluate_expr (Suc n) d root e s = Some (Inr (), s')" and ext: "extends s' t"
    for d root e s s' t
  proof (cases e)
    case (Ref i ks m)
    with run obtain d' where d: "d = Suc d'"
      and r: "evaluate_ref n d' root i ks m s = Some (Inr (), s')"
      by (auto simp: evaluate_expr.simps dest!: call_Inr)
    from evaluate_ref_sets_flag [OF r] ext have "evaluated (t i)" "n \<noteq> 0"
      by (simp_all add: extends_def)
    then obtain k where "n = Suc k" by (cases n) simp_all
    with \<open>evaluated (t i)\<close> Ref d show ?thesis
      by (simp add: evaluate_expr.simps evaluate_ref.simps return_def)
  next
    case (Table items)
    with run obtain d' where d: "d = Suc d'"
      and r: "evaluate_table n d' root items s = Some (Inr (), s')"
      by (auto simp: evaluate_expr.simps dest!: call_Inr)
    from IH2 [OF r ext] Table d show ?thesis by (simp add: evaluate_expr.simps)
  qed (use run in \<open>simp_all add: evaluate_expr.simps outcome_defs\<close>)
  have 2: "evaluate_table (Suc n) d root its t = Some (Inr (), t)"
    if run: "evaluate_table (Suc n) d root its s = Some (Inr (), s')" and ext: "extends s' t"
    for d root its s s' t
  proof (cases its)
    case Nil
    then show ?thesis by (simp add: evaluate_table.simps return_def)
  next
    case (Cons it its')
    from run Cons obtain d' s1 s2 where d: "d = Suc d'"
      and k: "evaluate_expr n d' root (key it) s = Some (Inr (), s1)"
      and v: "evaluate_expr n d' root (val it) s1 = Some (Inr (), s2)"
      and r: "evaluate_table n d root its' s2 = Some (Inr (), s')"
      by (auto simp: evaluate_table.simps dest!: and_then_Inr call_Inr)
    from evaluate_expr_extends [OF v] evaluate_table_extends [OF r] ext
    have e1: "extends s1 t" and e2: "extends s2 t"
      by (blast intro: extends_trans)+
    from IH1 [OF k e1] IH1 [OF v e2] IH2 [OF r ext] Cons d show ?thesis
      by (simp add: evaluate_table.simps and_then_def)
  qed
  from 1 2 show ?case by blast
qed

lemma touch_id: "touch (\<lambda>s. s)"
  by (simp add: touch_def)

lemma touch_assign: "touch (\<lambda>s. s(i := (s i)\<lparr>parent := p\<rparr>))"
  by (auto simp: touch_def)

lemma touch_comp:
  assumes "touch f" and "touch g"
  shows "touch (\<lambda>s. g (f s))"
proof -
  have a: "cache (g (f s) j) = cache (s j) \<and> evaluated (g (f s) j) = evaluated (s j)" for s j
    using assms by (simp add: touch_def)
  have c: "(\<forall>s. parent (g (f s) j) = parent (s j)) \<or> (\<exists>c. \<forall>s. parent (g (f s) j) = c)" for j
  proof -
    from assms(2) have "(\<forall>s. parent (g s j) = parent (s j)) \<or> (\<exists>c. \<forall>s. parent (g s j) = c)"
      by (simp add: touch_def)
    moreover from assms(1) have "(\<forall>s. parent (f s j) = parent (s j)) \<or> (\<exists>c. \<forall>s. parent (f s j) = c)"
      by (simp add: touch_def)
    ultimately show ?thesis by metis
  qed
  show ?thesis unfolding touch_def using a c by blast
qed

lemma touch_fixes:
  assumes "touch f" and "\<forall>j. parent (t j) = parent (f s j)"
  shows "f t = t"
proof
  fix j
  from assms(1) have ce: "cache (f t j) = cache (t j)" "evaluated (f t j) = evaluated (t j)"
    by (simp_all add: touch_def)
  from assms(1) have "(\<forall>s. parent (f s j) = parent (s j)) \<or> (\<exists>c. \<forall>s. parent (f s j) = c)"
    by (simp add: touch_def)
  with assms(2) have "parent (f t j) = parent (t j)" by metis
  with ce show "f t j = t j" by simp
qed

lemma touch_assign_parents:
  fixes s :: state
  shows "touch (assign_parents p e)"
    and "touch (assign_parents_array p xs)"
    and "touch (assign_parents_items e' its)"
    and "touch (assign_parents_item e' it)"
proof (induction p e s and p xs s and e' its s and e' it s
    rule: assign_parents_assign_parents_array_assign_parents_items_assign_parents_item.induct)
  case (5 p i ks m s)
  have "assign_parents p (Ref i ks m) = (\<lambda>s. s(i := (s i)\<lparr>parent := p\<rparr>))" by (rule ext) simp
  then show ?case by (simp only: touch_assign)
next
  case (6 p uu right s)
  have "assign_parents p (Unary uu right) = assign_parents p right" by (rule ext) simp
  with 6 show ?case by simp
next
  case (7 p left uv right s)
  have "assign_parents p (Binary left uv right) = (\<lambda>s. assign_parents p right (assign_parents p left s))"
    by (rule ext) simp
  with 7 show ?case by (simp add: touch_comp)
next
  case (8 p items s)
  have "assign_parents p (Array items) = assign_parents_array p items" by (rule ext) simp
  with 8 show ?case by simp
next
  case (9 p items s)
  have "assign_parents p (Table items) = assign_parents_items (Table items) items" by (rule ext) simp
  with 9 show ?case by simp
next
  case (10 p s)
  have "assign_parents_array p [] = (\<lambda>s. s)" by (rule ext) simp
  then show ?case by (simp add: touch_id)
next
  case (11 p x xs s)
  have "assign_parents_array p (x # xs) = (\<lambda>s. assign_parents_array p xs (assign_parents p x s))"
    by (rule ext) simp
  with 11 show ?case by (simp add: touch_comp)
next
  case (12 e s)
  have "assign_parents_items e [] = (\<lambda>s. s)" by (rule ext) simp
  then show ?case by (simp add: touch_id)
next
  case (13 e it its s)
  have "assign_parents_items e (it # its)
          = (\<lambda>s. assign_parents_items e its (assign_parents_item e it s))"
    by (rule ext) simp
  with 13 show ?case by (simp add: touch_comp)
next
  case (14 e k v ip s)
  show ?case
  proof (cases ip)
    case None
    then have "assign_parents_item e (TableItem k v ip)
                 = (\<lambda>s. assign_parents (Some e) v (assign_parents (Some e) k s))"
      by (intro ext) (simp add: Let_def)
    with 14 show ?thesis by (simp add: touch_comp)
  next
    case (Some q)
    then have "assign_parents_item e (TableItem k v ip)
                 = (\<lambda>s. assign_parents (Some e) q (assign_parents (Some e) v (assign_parents (Some e) k s)))"
      by (intro ext) (simp add: Let_def)
    moreover from 14 have tk: "touch (assign_parents (Some e) k)"
      and tv: "touch (assign_parents (Some e) v)"
      by simp_all
    moreover from 14(3) [OF refl refl Some] have tq: "touch (assign_parents (Some e) q)" .
    have "touch (\<lambda>s. assign_parents (Some e) q (assign_parents (Some e) v (assign_parents (Some e) k s)))"
      by (rule touch_comp [OF touch_comp [OF tk tv] tq])
    ultimately show ?thesis by simp
  qed
qed (simp_all add: touch_def)

lemma assigns_return: "assigns (\<lambda>s. return () (g s)) g"
  by (simp add: assigns_def return_def)

lemma assigns_call:
  assumes "\<And>d'. assigns (f d') g"
  shows "assigns (\<lambda>s. call d s (\<lambda>d'. f d' s)) g"
proof (cases d)
  case 0
  then show ?thesis by (simp add: assigns_def raise_def)
next
  case (Suc d')
  with assms [of d'] show ?thesis by (simp add: assigns_def)
qed

lemma assigns_and_then:
  assumes f: "assigns f g" and f': "assigns f' g'"
  shows "assigns (\<lambda>s. and_then (f s) (\<lambda>_. f')) (\<lambda>s. g' (g s))"
  unfolding assigns_def
proof (intro impI allI)
  fix s
  assume "\<exists>s t. and_then (f s) (\<lambda>_. f') = Some (Inr (), t)"
  then obtain s0 t0 where "and_then (f s0) (\<lambda>_. f') = Some (Inr (), t0)" by blast
  then obtain s1 where a: "f s0 = Some (Inr (), s1)" and b: "f' s1 = Some (Inr (), t0)"
    by (auto dest!: and_then_Inr)
  from f a have fa: "f s = Some (Inr (), g s)" by (auto simp: assigns_def)
  from f' b have "f' (g s) = Some (Inr (), g' (g s))" by (auto simp: assigns_def)
  with fa show "and_then (f s) (\<lambda>_. f') = Some (Inr (), g' (g s))"
    by (simp add: and_then_def)
qed

lemma resolve_array_assigns:
  assumes "\<And>x d p. x \<in> set xs \<Longrightarrow> assigns (resolve d p x) (assign_parents p x)"
  shows "assigns (resolve_array d p xs) (assign_parents_array p xs)"
  using assms
proof (induction xs)
  case Nil
  have "resolve_array d p [] = (\<lambda>s. return () s)" by (rule ext) simp
  moreover have "assign_parents_array p [] = (\<lambda>s. s)" by (rule ext) simp
  ultimately show ?case by (simp only: assigns_return)
next
  case (Cons x xs)
  have 1: "assigns (\<lambda>s. call d s (\<lambda>d'. resolve d' p x s)) (assign_parents p x)"
    by (rule assigns_call) (rule Cons.prems, simp)
  have 2: "assigns (resolve_array d p xs) (assign_parents_array p xs)"
    by (rule Cons.IH) (rule Cons.prems, simp)
  have "resolve_array d p (x # xs)
          = (\<lambda>s. and_then (call d s (\<lambda>d'. resolve d' p x s)) (\<lambda>_. resolve_array d p xs))"
    by (rule ext) simp
  moreover have "assign_parents_array p (x # xs)
          = (\<lambda>s. assign_parents_array p xs (assign_parents p x s))"
    by (rule ext) simp
  ultimately show ?case using assigns_and_then [OF 1 2] by simp
qed

lemma resolve_items_assigns:
  assumes "\<And>it d e. it \<in> set its \<Longrightarrow> assigns (resolve_item d e it) (assign_parents_item e it)"
  shows "assigns (resolve_items d e its) (assign_parents_items e its)"
  using assms
proof (induction its)
  case Nil
  have "resolve_items d e [] = (\<lambda>s. return () s)" by (rule ext) simp
  moreover have "assign_parents_items e [] = (\<lambda>s. s)" by (rule ext) simp
  ultimately show ?case by (simp only: assigns_return)
next
  case (Cons it its)
  have 1: "assigns (resolve_item d e it) (assign_parents_item e it)"
    by (rule Cons.prems) simp
  have 2: "assigns (resolve_items d e its) (assign_parents_items e its)"
    by (rule Cons.IH) (rule Cons.prems, simp)
  have "resolve_items d e (it # its)
          = (\<lambda>s. and_then (resolve_item d e it s) (\<lambda>_. resolve_items d e its))"
    by (rule ext) simp
  moreover have "assign_parents_items e (it # its)
          = (\<lambda>s. assign_parents_items e its (assign_parents_item e it s))"
    by (rule ext) simp
  ultimately show ?case using assigns_and_then [OF 1 2] by simp
qed

lemma resolve_assigns:
  fixes e :: expr and it :: table_item
  shows "assigns (resolve d p e) (assign_parents p e)"
    and "assigns (resolve_item d e' it) (assign_parents_item e' it)"
proof (induction e and it arbitrary: d p and d e')
  case (Str x)
  have "resolve d p (Str x) = (\<lambda>s. return () s)" by (rule ext) simp
  moreover have "assign_parents p (Str x) = (\<lambda>s. s)" by (rule ext) simp
  ultimately show ?case by (simp only: assigns_return)
next
  case (Bool x)
  have "resolve d p (Bool x) = (\<lambda>s. return () s)" by (rule ext) simp
  moreover have "assign_parents p (Bool x) = (\<lambda>s. s)" by (rule ext) simp
  ultimately show ?case by (simp only: assigns_return)
next
  case (Int' x)
  have "resolve d p (Int' x) = (\<lambda>s. return () s)" by (rule ext) simp
  moreover have "assign_parents p (Int' x) = (\<lambda>s. s)" by (rule ext) simp
  ultimately show ?case by (simp only: assigns_return)
next
  case (Float x)
  have "resolve d p (Float x) = (\<lambda>s. return () s)" by (rule ext) simp
  moreover have "assign_parents p (Float x) = (\<lambda>s. s)" by (rule ext) simp
  ultimately show ?case by (simp only: assigns_return)
next
  case (Ref i ks m)
  have "resolve d p (Ref i ks m) = (\<lambda>s. return () (s(i := (s i)\<lparr>parent := p\<rparr>)))"
    by (rule ext) simp
  moreover have "assign_parents p (Ref i ks m) = (\<lambda>s. s(i := (s i)\<lparr>parent := p\<rparr>))"
    by (rule ext) simp
  ultimately show ?case by (simp only: assigns_return)
next
  case (Unary op right)
  have "resolve d p (Unary op right) = (\<lambda>s. call d s (\<lambda>d'. resolve d' p right s))"
    by (rule ext) simp
  moreover have "assign_parents p (Unary op right) = assign_parents p right"
    by (rule ext) simp
  moreover have "assigns (\<lambda>s. call d s (\<lambda>d'. resolve d' p right s)) (assign_parents p right)"
    by (rule assigns_call) (rule Unary.IH)
  ultimately show ?case by simp
next
  case (Binary left op right)
  have 1: "assigns (\<lambda>s. call d s (\<lambda>d'. resolve d' p left s)) (assign_parents p left)"
    by (rule assigns_call) (rule Binary.IH)
  have 2: "assigns (\<lambda>s. call d s (\<lambda>d'. resolve d' p right s)) (assign_parents p right)"
    by (rule assigns_call) (rule Binary.IH)
  have "resolve d p (Binary left op right)
          = (\<lambda>s. and_then (call d s (\<lambda>d'. resolve d' p left s))
                    (\<lambda>_. (\<lambda>s. call d s (\<lambda>d'. resolve d' p right s))))"
    by (rule ext) simp
  moreover have "assign_parents p (Binary left op right)
          = (\<lambda>s. assign_parents p right (assign_parents p left s))"
    by (rule ext) simp
  ultimately show ?case using assigns_and_then [OF 1 2] by simp
next
  case (Array xs)
  have "resolve d p (Array xs) = resolve_array d p xs" by (rule ext) simp
  moreover have "assign_parents p (Array xs) = assign_parents_array p xs" by (rule ext) simp
  moreover have "assigns (resolve_array d p xs) (assign_parents_array p xs)"
    by (rule resolve_array_assigns) (rule Array.IH)
  ultimately show ?case by simp
next
  case (Table items)
  have "resolve d p (Table items) = resolve_items d (Table items) items" by (rule ext) simp
  moreover have "assign_parents p (Table items) = assign_parents_items (Table items) items"
    by (rule ext) simp
  moreover have "assigns (resolve_items d (Table items) items)
                   (assign_parents_items (Table items) items)"
    by (rule resolve_items_assigns) (rule Table.IH)
  ultimately show ?case by simp
next
  case (TableItem k v ip)
  have 1: "assigns (\<lambda>s. call d s (\<lambda>d'. resolve d' (Some e') k s)) (assign_parents (Some e') k)"
    by (rule assigns_call) (rule TableItem.IH)
  have 2: "assigns (\<lambda>s. call d s (\<lambda>d'. resolve d' (Some e') v s)) (assign_parents (Some e') v)"
    by (rule assigns_call) (rule TableItem.IH)
  show ?case
  proof (cases ip)
    case None
    have 3: "assigns (\<lambda>s. return () s) (\<lambda>s. s)" by (rule assigns_return)
    have "resolve_item d e' (TableItem k v ip)
            = (\<lambda>s. and_then (call d s (\<lambda>d'. resolve d' (Some e') k s))
                      (\<lambda>_. (\<lambda>s. and_then (call d s (\<lambda>d'. resolve d' (Some e') v s))
                                   (\<lambda>_. (\<lambda>s. return () s)))))"
      using None by (intro ext) simp
    moreover have "assign_parents_item e' (TableItem k v ip)
            = (\<lambda>s. (\<lambda>s. (\<lambda>s. s) (assign_parents (Some e') v s)) (assign_parents (Some e') k s))"
      using None by (intro ext) (simp add: Let_def)
    ultimately show ?thesis
      using assigns_and_then [OF 1 assigns_and_then [OF 2 3]] by simp
  next
    case (Some q)
    have 3: "assigns (\<lambda>s. call d s (\<lambda>d'. resolve d' (Some e') q s)) (assign_parents (Some e') q)"
      by (rule assigns_call) (rule TableItem.IH, simp add: Some)
    have "resolve_item d e' (TableItem k v ip)
            = (\<lambda>s. and_then (call d s (\<lambda>d'. resolve d' (Some e') k s))
                      (\<lambda>_. (\<lambda>s. and_then (call d s (\<lambda>d'. resolve d' (Some e') v s))
                                   (\<lambda>_. (\<lambda>s. call d s (\<lambda>d'. resolve d' (Some e') q s))))))"
      using Some by (intro ext) simp
    moreover have "assign_parents_item e' (TableItem k v ip)
            = (\<lambda>s. (\<lambda>s. assign_parents (Some e') q (assign_parents (Some e') v s))
                      (assign_parents (Some e') k s))"
      using Some by (intro ext) (simp add: Let_def)
    ultimately show ?thesis
      using assigns_and_then [OF 1 assigns_and_then [OF 2 3]] by simp
  qed
qed

lemma grows_all2:
  "(\<forall>d root e s. grows s (evaluate_expr2 n d root e s)) \<and>
   (\<forall>d root i ks m s. grows s (evaluate_ref2 n d root i ks m s)) \<and>
   (\<forall>d root ks cur s. grows s (evaluate_ref_keys2 n d root ks cur s)) \<and>
   (\<forall>d root a its cur s. grows s (evaluate_ref_items2 n d root a its cur s)) \<and>
   (\<forall>d root e s. grows s (unwrap n d root e s)) \<and>
   (\<forall>d root its s. grows s (evaluate_table2 n d root its s))"
proof (induction n)
  case 0
  show ?case by (simp add: evaluator2_simps)
next
  case (Suc n)
  then have IH1: "\<And>d root e s. grows s (evaluate_expr2 n d root e s)"
    and IH2: "\<And>d root i ks m s. grows s (evaluate_ref2 n d root i ks m s)"
    and IH3: "\<And>d root ks cur s. grows s (evaluate_ref_keys2 n d root ks cur s)"
    and IH4: "\<And>d root a its cur s. grows s (evaluate_ref_items2 n d root a its cur s)"
    and IH5: "\<And>d root e s. grows s (unwrap n d root e s)"
    and IH6: "\<And>d root its s. grows s (evaluate_table2 n d root its s)"
    by simp_all
  have c1: "grows s (call d s (\<lambda>d'. evaluate_expr2 n d' root e s))" for d root e s
    by (rule grows_call) (rule IH1)
  have c5: "grows s (call d s (\<lambda>d'. unwrap n d' root e s))" for d root e s
    by (rule grows_call) (rule IH5)
  have 1: "grows s (evaluate_expr2 (Suc n) d root e s)" for d root e s
    by (cases e) (simp_all add: evaluate_expr2.simps IH2 IH6 grows_call)
  have 2: "grows s (evaluate_ref2 (Suc n) d root i ks m s)" for d root i ks m s
  proof (cases "evaluated (s i)")
    case True
    then show ?thesis by (simp add: evaluate_ref2.simps)
  next
    case False
    let ?s1 = "s(i := (s i)\<lparr>evaluated := True\<rparr>)"
    have "grows ?s1 (and_then (evaluate_ref_keys2 n d root ks (if m = ABSOLUTE then Some root else parent (?s1 i)) ?s1)
             (\<lambda>current' s2. return () (s2(i := (s2 i)\<lparr>cache := current'\<rparr>))))"
      by (rule grows_and_then [OF IH3]) (auto simp: return_def)
    then have "grows s (and_then (evaluate_ref_keys2 n d root ks (if m = ABSOLUTE then Some root else parent (?s1 i)) ?s1)
             (\<lambda>current' s2. return () (s2(i := (s2 i)\<lparr>cache := current'\<rparr>))))"
      by (rule grows_weaken [rotated]) simp
    with False show ?thesis by (simp add: evaluate_ref2.simps Let_def)
  qed
  have 3: "grows s (evaluate_ref_keys2 (Suc n) d root ks cur s)" for d root ks cur s
  proof (cases ks)
    case Nil
    then show ?thesis by (simp add: evaluate_ref_keys2.simps)
  next
    case (Cons k ks')
    show ?thesis
    proof (cases cur)
      case None
      with Cons show ?thesis by (simp add: evaluate_ref_keys2.simps)
    next
      case (Some c)
      show ?thesis
        unfolding evaluate_ref_keys2.simps Cons list.case Some option.case
        by (rule grows_and_then [OF c5], rule grows_and_then [OF c5])
           (auto intro!: grows_and_then IH4 IH3 split: expr.splits)
    qed
  qed
  have 4: "grows s (evaluate_ref_items2 (Suc n) d root a its cur s)" for d root a its cur s
  proof (cases its)
    case Nil
    then show ?thesis by (simp add: evaluate_ref_items2.simps)
  next
    case (Cons it its')
    have "grows s (call d s (\<lambda>d'. unwrap n d' root (key it) s))" by (rule c5)
    then show ?thesis
      unfolding evaluate_ref_items2.simps Cons list.case
      by (auto intro: grows_weaken [OF _ IH4] simp: raise_def return_def split: option.splits sum.splits)
  qed
  have 5: "grows s (unwrap (Suc n) d root e s)" for d root e s
    unfolding unwrap.simps
    by (cases e) (auto intro!: grows_and_then c1 IH5 split: option.splits)
  have 6: "grows s (evaluate_table2 (Suc n) d root its s)" for d root its s
  proof (cases its)
    case Nil
    then show ?thesis by (simp add: evaluate_table2.simps)
  next
    case (Cons it its')
    show ?thesis
      unfolding evaluate_table2.simps Cons list.case
      by (intro grows_and_then c1 IH6)
  qed
  show ?case by (simp add: 1 2 3 4 5 6)
qed

lemma evaluate_expr2_extends:
  "evaluate_expr2 n d root e s = Some (r, t) \<Longrightarrow> extends s t"
  using grows_all2 [of n] by (metis grows_Some)

lemma evaluate_table2_extends:
  "evaluate_table2 n d root its s = Some (r, t) \<Longrightarrow> extends s t"
  using grows_all2 [of n] by (metis grows_Some)

lemma evaluate_ref_keys2_extends:
  "evaluate_ref_keys2 n d root ks cur s = Some (r, t) \<Longrightarrow> extends s t"
  using grows_all2 [of n] by (metis grows_Some)

lemma evaluate_ref2_sets_flag:
  assumes "evaluate_ref2 n d root i ks m s = Some (Inr (), t)"
  shows "evaluated (t i) \<and> n \<noteq> 0"
proof (cases n)
  case 0
  with assms show ?thesis by (simp add: evaluate_ref2.simps)
next
  case (Suc k)
  show ?thesis
  proof (cases "evaluated (s i)")
    case True
    with assms Suc show ?thesis by (simp add: evaluate_ref2.simps return_def)
  next
    case False
    let ?s1 = "s(i := (s i)\<lparr>evaluated := True\<rparr>)"
    from assms Suc False obtain x s2 where
      keys: "evaluate_ref_keys2 k d root ks (if m = ABSOLUTE then Some root else parent (?s1 i)) ?s1
               = Some (Inr x, s2)"
      and fin: "return () (s2(i := (s2 i)\<lparr>cache := x\<rparr>)) = Some (Inr (), t)"
      by (auto simp: evaluate_ref2.simps Let_def dest!: and_then_Inr)
    from evaluate_ref_keys2_extends [OF keys] have "evaluated (s2 i)"
      by (simp add: extends_def)
    with fin Suc show ?thesis by (auto simp: return_def)
  qed
qed

lemma retraverse2:
  "(\<forall>d root e s s' t. evaluate_expr2 n d root e s = Some (Inr (), s') \<longrightarrow> extends s' t
      \<longrightarrow> evaluate_expr2 n d root e t = Some (Inr (), t)) \<and>
   (\<forall>d root its s s' t. evaluate_table2 n d root its s = Some (Inr (), s') \<longrightarrow> extends s' t
      \<longrightarrow> evaluate_table2 n d root its t = Some (Inr (), t))"
proof (induction n)
  case 0
  show ?case by (simp add: evaluator2_simps)
next
  case (Suc n)
  then have IH1: "\<And>d root e s s' t. evaluate_expr2 n d root e s = Some (Inr (), s') \<Longrightarrow> extends s' t
      \<Longrightarrow> evaluate_expr2 n d root e t = Some (Inr (), t)"
    and IH2: "\<And>d root its s s' t. evaluate_table2 n d root its s = Some (Inr (), s') \<Longrightarrow> extends s' t
      \<Longrightarrow> evaluate_table2 n d root its t = Some (Inr (), t)"
    by blast+
  have 1: "evaluate_expr2 (Suc n) d root e t = Some (Inr (), t)"
    if run: "evaluate_expr2 (Suc n) d root e s = Some (Inr (), s')" and ext: "extends s' t"
    for d root e s s' t
  proof (cases e)
    case (Ref i ks m)
    with run obtain d' where d: "d = Suc d'"
      and r: "evaluate_ref2 n d' root i ks m s = Some (Inr (), s')"
      by (auto simp: evaluate_expr2.simps dest!: call_Inr)
    from evaluate_ref2_sets_flag [OF r] ext have "evaluated (t i)" "n \<noteq> 0"
      by (simp_all add: extends_def)
    then obtain k where "n = Suc k" by (cases n) simp_all
    with \<open>evaluated (t i)\<close> Ref d show ?thesis
      by (simp add: evaluate_expr2.simps evaluate_ref2.simps return_def)
  next
    case (Table items)
    with run obtain d' where d: "d = Suc d'"
      and r: "evaluate_table2 n d' root items s = Some (Inr (), s')"
      by (auto simp: evaluate_expr2.simps dest!: call_Inr)
    from IH2 [OF r ext] Table d show ?thesis by (simp add: evaluate_expr2.simps)
  qed (simp_all add: evaluate_expr2.simps outcome_defs)
  have 2: "evaluate_table2 (Suc n) d root its t = Some (Inr (), t)"
    if run: "evaluate_table2 (Suc n) d root its s = Some (Inr (), s')" and ext: "extends s' t"
    for d root its s s' t
  proof (cases its)
    case Nil
    then show ?thesis by (simp add: evaluate_table2.simps return_def)
  next
    case (Cons it its')
    from run Cons obtain d' s1 s2 where d: "d = Suc d'"
      and k: "evaluate_expr2 n d' root (key it) s = Some (Inr (), s1)"
      and v: "evaluate_expr2 n d' root (val it) s1 = Some (Inr (), s2)"
      and r: "evaluate_table2 n d root its' s2 = Some (Inr (), s')"
      by (auto simp: evaluate_table2.simps dest!: and_then_Inr call_Inr)
    from evaluate_expr2_extends [OF v] evaluate_table2_extends [OF r] ext
    have e1: "extends s1 t" and e2: "extends s2 t"
      by (blast intro: extends_trans)+
    from IH1 [OF k e1] IH1 [OF v e2] IH2 [OF r ext] Cons d show ?thesis
      by (simp add: evaluate_table2.simps and_then_def)
  qed
  from 1 2 show ?case by blast
qed

lemma touch_assign_parents2:
  fixes s :: state
  shows "touch (assign_parents2 p e)"
    and "touch (assign_parents_items2 e' its)"
    and "touch (assign_parents_item2 e' it)"
proof (induction p e s and e' its s and e' it s
    rule: assign_parents2_assign_parents_items2_assign_parents_item2.induct)
  case (1 p i ks m s)
  have "assign_parents2 p (Ref i ks m) = (\<lambda>s. s(i := (s i)\<lparr>parent := p\<rparr>))" by (rule ext) simp
  then show ?case by (simp only: touch_assign)
next
  case (2 p items s)
  have "assign_parents2 p (Table items) = assign_parents_items2 (Table items) items"
    by (rule ext) simp
  with 2 show ?case by simp
next
  case (10 e s)
  have "assign_parents_items2 e [] = (\<lambda>s. s)" by (rule ext) simp
  then show ?case by (simp add: touch_id)
next
  case (11 e it its s)
  have "assign_parents_items2 e (it # its)
          = (\<lambda>s. assign_parents_items2 e its (assign_parents_item2 e it s))"
    by (rule ext) simp
  with 11 show ?case by (simp add: touch_comp)
next
  case (12 e k v ip s)
  from 12 have tk: "touch (assign_parents2 (Some e) k)" and tv: "touch (assign_parents2 (Some e) v)"
    by simp_all
  show ?case
  proof (cases ip)
    case None
    then have "assign_parents_item2 e (TableItem k v ip)
                 = (\<lambda>s. assign_parents2 (Some e) v (assign_parents2 (Some e) k s))"
      by (intro ext) (simp add: Let_def)
    with touch_comp [OF tk tv] show ?thesis by simp
  next
    case (Some q)
    then have "assign_parents_item2 e (TableItem k v ip)
                 = (\<lambda>s. assign_parents2 (Some e) q (assign_parents2 (Some e) v (assign_parents2 (Some e) k s)))"
      by (intro ext) (simp add: Let_def)
    moreover from 12(3) [OF refl refl Some] have tq: "touch (assign_parents2 (Some e) q)" .
    have "touch (\<lambda>s. assign_parents2 (Some e) q (assign_parents2 (Some e) v (assign_parents2 (Some e) k s)))"
      by (rule touch_comp [OF touch_comp [OF tk tv] tq])
    ultimately show ?thesis by simp
  qed
qed (simp_all add: touch_def)

lemma resolve_items2_assigns:
  assumes "\<And>it d e. it \<in> set its \<Longrightarrow> assigns (resolve_item2 d e it) (assign_parents_item2 e it)"
  shows "assigns (resolve_items2 d e its) (assign_parents_items2 e its)"
  using assms
proof (induction its)
  case Nil
  have "resolve_items2 d e [] = (\<lambda>s. return () s)" by (rule ext) simp
  moreover have "assign_parents_items2 e [] = (\<lambda>s. s)" by (rule ext) simp
  ultimately show ?case by (simp only: assigns_return)
next
  case (Cons it its)
  have 1: "assigns (resolve_item2 d e it) (assign_parents_item2 e it)"
    by (rule Cons.prems) simp
  have 2: "assigns (resolve_items2 d e its) (assign_parents_items2 e its)"
    by (rule Cons.IH) (rule Cons.prems, simp)
  have "resolve_items2 d e (it # its)
          = (\<lambda>s. and_then (resolve_item2 d e it s) (\<lambda>_. resolve_items2 d e its))"
    by (rule ext) simp
  moreover have "assign_parents_items2 e (it # its)
          = (\<lambda>s. assign_parents_items2 e its (assign_parents_item2 e it s))"
    by (rule ext) simp
  ultimately show ?case using assigns_and_then [OF 1 2] by simp
qed

lemma resolve2_assigns:
  fixes e :: expr and it :: table_item
  shows "assigns (resolve2 d p e) (assign_parents2 p e)"
    and "assigns (resolve_item2 d e' it) (assign_parents_item2 e' it)"
proof (induction e and it arbitrary: d p and d e')
  case (Str x)
  have "resolve2 d p (Str x) = (\<lambda>s. return () s)" by (rule ext) simp
  moreover have "assign_parents2 p (Str x) = (\<lambda>s. s)" by (rule ext) simp
  ultimately show ?case by (simp only: assigns_return)
next
  case (Bool x)
  have "resolve2 d p (Bool x) = (\<lambda>s. return () s)" by (rule ext) simp
  moreover have "assign_parents2 p (Bool x) = (\<lambda>s. s)" by (rule ext) simp
  ultimately show ?case by (simp only: assigns_return)
next
  case (Int' x)
  have "resolve2 d p (Int' x) = (\<lambda>s. return () s)" by (rule ext) simp
  moreover have "assign_parents2 p (Int' x) = (\<lambda>s. s)" by (rule ext) simp
  ultimately show ?case by (simp only: assigns_return)
next
  case (Float x)
  have "resolve2 d p (Float x) = (\<lambda>s. return () s)" by (rule ext) simp
  moreover have "assign_parents2 p (Float x) = (\<lambda>s. s)" by (rule ext) simp
  ultimately show ?case by (simp only: assigns_return)
next
  case (Ref i ks m)
  have "resolve2 d p (Ref i ks m) = (\<lambda>s. return () (s(i := (s i)\<lparr>parent := p\<rparr>)))"
    by (rule ext) simp
  moreover have "assign_parents2 p (Ref i ks m) = (\<lambda>s. s(i := (s i)\<lparr>parent := p\<rparr>))"
    by (rule ext) simp
  ultimately show ?case by (simp only: assigns_return)
next
  case (Unary op right)
  have "resolve2 d p (Unary op right) = (\<lambda>s. return () s)" by (rule ext) simp
  moreover have "assign_parents2 p (Unary op right) = (\<lambda>s. s)" by (rule ext) simp
  ultimately show ?case by (simp only: assigns_return)
next
  case (Binary left op right)
  have "resolve2 d p (Binary left op right) = (\<lambda>s. return () s)" by (rule ext) simp
  moreover have "assign_parents2 p (Binary left op right) = (\<lambda>s. s)" by (rule ext) simp
  ultimately show ?case by (simp only: assigns_return)
next
  case (Array xs)
  have "resolve2 d p (Array xs) = (\<lambda>s. return () s)" by (rule ext) simp
  moreover have "assign_parents2 p (Array xs) = (\<lambda>s. s)" by (rule ext) simp
  ultimately show ?case by (simp only: assigns_return)
next
  case (Table items)
  have "resolve2 d p (Table items) = resolve_items2 d (Table items) items" by (rule ext) simp
  moreover have "assign_parents2 p (Table items) = assign_parents_items2 (Table items) items"
    by (rule ext) simp
  moreover have "assigns (resolve_items2 d (Table items) items)
                   (assign_parents_items2 (Table items) items)"
    by (rule resolve_items2_assigns) (rule Table.IH)
  ultimately show ?case by simp
next
  case (TableItem k v ip)
  have 1: "assigns (\<lambda>s. call d s (\<lambda>d'. resolve2 d' (Some e') k s)) (assign_parents2 (Some e') k)"
    by (rule assigns_call) (rule TableItem.IH)
  have 2: "assigns (\<lambda>s. call d s (\<lambda>d'. resolve2 d' (Some e') v s)) (assign_parents2 (Some e') v)"
    by (rule assigns_call) (rule TableItem.IH)
  show ?case
  proof (cases ip)
    case None
    have 3: "assigns (\<lambda>s. return () s) (\<lambda>s. s)" by (rule assigns_return)
    have "resolve_item2 d e' (TableItem k v ip)
            = (\<lambda>s. and_then (call d s (\<lambda>d'. resolve2 d' (Some e') k s))
                      (\<lambda>_. (\<lambda>s. and_then (call d s (\<lambda>d'. resolve2 d' (Some e') v s))
                                   (\<lambda>_. (\<lambda>s. return () s)))))"
      using None by (intro ext) simp
    moreover have "assign_parents_item2 e' (TableItem k v ip)
            = (\<lambda>s. (\<lambda>s. (\<lambda>s. s) (assign_parents2 (Some e') v s)) (assign_parents2 (Some e') k s))"
      using None by (intro ext) (simp add: Let_def)
    ultimately show ?thesis
      using assigns_and_then [OF 1 assigns_and_then [OF 2 3]] by simp
  next
    case (Some q)
    have 3: "assigns (\<lambda>s. call d s (\<lambda>d'. resolve2 d' (Some e') q s)) (assign_parents2 (Some e') q)"
      by (rule assigns_call) (rule TableItem.IH, simp add: Some)
    have "resolve_item2 d e' (TableItem k v ip)
            = (\<lambda>s. and_then (call d s (\<lambda>d'. resolve2 d' (Some e') k s))
                      (\<lambda>_. (\<lambda>s. and_then (call d s (\<lambda>d'. resolve2 d' (Some e') v s))
                                   (\<lambda>_. (\<lambda>s. call d s (\<lambda>d'. resolve2 d' (Some e') q s))))))"
      using Some by (intro ext) simp
    moreover have "assign_parents_item2 e' (TableItem k v ip)
            = (\<lambda>s. (\<lambda>s. assign_parents2 (Some e') q (assign_parents2 (Some e') v s))
                      (assign_parents2 (Some e') k s))"
      using Some by (intro ext) (simp add: Let_def)
    ultimately show ?thesis
      using assigns_and_then [OF 1 assigns_and_then [OF 2 3]] by simp
  qed
qed

lemma evaluate_again:
  assumes "evaluate n d root s = Some (Inr r, s')"
  shows "evaluate n d root s' = Some (Inr r, s')"
proof -
  let ?p = "if is_Table root then Some root else None"
  from assms obtain d' s1 where d: "d = Suc d'"
    and res: "resolve d' ?p root s = Some (Inr (), s1)"
    and run: "evaluate_expr n d' root root s1 = Some (Inr (), s')"
    and r: "r = root"
    by (auto simp: evaluate_def Let_def return_def dest!: and_then_Inr call_Inr)
  from resolve_assigns(1) [of d' ?p root] res
  have everywhere: "resolve d' ?p root t = Some (Inr (), assign_parents ?p root t)" for t
    unfolding assigns_def by blast
  with res have s1: "s1 = assign_parents ?p root s" by simp
  from evaluate_expr_extends [OF run] s1
  have "\<forall>j. parent (s' j) = parent (assign_parents ?p root s j)"
    by (simp add: extends_def)
  with touch_assign_parents(1) have fixed: "assign_parents ?p root s' = s'" by (rule touch_fixes)
  from retraverse [of n] run have "evaluate_expr n d' root root s' = Some (Inr (), s')"
    using extends_refl by blast
  with everywhere [of s'] fixed r d show ?thesis
    by (simp add: evaluate_def Let_def outcome_defs)
qed

lemma evaluate2_again:
  assumes "evaluate2 n d root s = Some (Inr r, s')"
  shows "evaluate2 n d root s' = Some (Inr r, s')"
proof -
  let ?p = "if is_Table root then Some root else None"
  from assms obtain d' s1 where d: "d = Suc d'"
    and res: "resolve2 d' ?p root s = Some (Inr (), s1)"
    and run: "evaluate_expr2 n d' root root s1 = Some (Inr (), s')"
    and r: "r = root"
    by (auto simp: evaluate2_def Let_def return_def dest!: and_then_Inr call_Inr)
  from resolve2_assigns(1) [of d' ?p root] res
  have everywhere: "resolve2 d' ?p root t = Some (Inr (), assign_parents2 ?p root t)" for t
    unfolding assigns_def by blast
  with res have s1: "s1 = assign_parents2 ?p root s" by simp
  from evaluate_expr2_extends [OF run] s1
  have "\<forall>j. parent (s' j) = parent (assign_parents2 ?p root s j)"
    by (simp add: extends_def)
  with touch_assign_parents2(1) have fixed: "assign_parents2 ?p root s' = s'" by (rule touch_fixes)
  from retraverse2 [of n] run have "evaluate_expr2 n d' root root s' = Some (Inr (), s')"
    using extends_refl by blast
  with everywhere [of s'] fixed r d show ?thesis
    by (simp add: evaluate2_def Let_def outcome_defs)
qed

text \<open>
  Claim C8. If \<^verbatim>\<open>evaluate\<close> has returned the tree, leaving state \<open>s'\<close>, then \<^verbatim>\<open>evaluate\<close> on
  the same tree from \<open>s'\<close>, with the same stack, returns the tree again within the same
  number of steps and leaves \<open>s'\<close> as it is: every \<^verbatim>\<open>parent\<close>, \<^verbatim>\<open>cache\<close> and \<^verbatim>\<open>evaluated\<close> field
  is unchanged. This holds for both modules. (The second call meets every reference
  with its flag set, so it runs no scan and prints nothing.)
\<close>

theorem evaluate_twice:
  "(evaluate n d root s = Some (Inr r, s') \<longrightarrow> evaluate n d root s' = Some (Inr r, s')) \<and>
   (evaluate2 n d root s = Some (Inr r, s') \<longrightarrow> evaluate2 n d root s' = Some (Inr r, s'))"
  using evaluate_again evaluate2_again by blast

theorem evaluate_twice_witness:
  "evaluate 20 20 doc_chain fresh = Some (Inr doc_chain, chain_evaluated) \<and>
   evaluate 20 20 doc_chain chain_evaluated = Some (Inr doc_chain, chain_evaluated) \<and>
   evaluate2 20 20 doc_chain fresh = Some (Inr doc_chain, chain_evaluated2) \<and>
   evaluate2 20 20 doc_chain chain_evaluated2 = Some (Inr doc_chain, chain_evaluated2) \<and>
   map (\<lambda>i. cache (chain_evaluated i)) [0, 1] = [Some (Ref 1 [Str ''c''] ABSOLUTE), Some (Str ''1'')] \<and>
   map (\<lambda>i. cache (chain_evaluated2 i)) [0, 1] = [Some (Ref 1 [Str ''c''] ABSOLUTE), Some (Str ''1'')]"
proof -
  have 1: "evaluate 20 20 doc_chain fresh = Some (Inr doc_chain, chain_evaluated)"
    unfolding chain_evaluated_def by (simp add: doc_chain_def run_defs)
  have 2: "evaluate2 20 20 doc_chain fresh = Some (Inr doc_chain, chain_evaluated2)"
    unfolding chain_evaluated2_def by (simp add: doc_chain_def run_defs)
  from evaluate_twice [of 20 20 doc_chain fresh doc_chain chain_evaluated] 1
  have 3: "evaluate 20 20 doc_chain chain_evaluated = Some (Inr doc_chain, chain_evaluated)"
    by blast
  from evaluate_twice [of 20 20 doc_chain fresh doc_chain chain_evaluated2] 2
  have 4: "evaluate2 20 20 doc_chain chain_evaluated2 = Some (Inr doc_chain, chain_evaluated2)"
    by blast
  have 5: "map (\<lambda>i. cache (chain_evaluated i)) [0, 1]
             = [Some (Ref 1 [Str ''c''] ABSOLUTE), Some (Str ''1'')]"
    unfolding chain_evaluated_def by (simp add: doc_chain_def run_defs)
  have 6: "map (\<lambda>i. cache (chain_evaluated2 i)) [0, 1]
             = [Some (Ref 1 [Str ''c''] ABSOLUTE), Some (Str ''1'')]"
    unfolding chain_evaluated2_def by (simp add: doc_chain_def run_defs)
  from 1 2 3 4 5 6 show ?thesis by simp
qed

section \<open>Following chains of caches\<close>

lemma evaluate_key_self_cycle:
  "evaluated (s i) \<Longrightarrow> cache (s i) = Some (Ref i ks m) \<Longrightarrow>
   evaluate_key n (Suc (Suc d)) root (Ref i ks m) s = None"
proof (induction n)
  case 0
  show ?case by (simp add: evaluate_key.simps)
next
  case (Suc n)
  show ?case
  proof (cases n)
    case 0
    then show ?thesis by (simp add: evaluate_key.simps evaluate_expr.simps and_then_def)
  next
    case n: (Suc a)
    show ?thesis
    proof (cases a)
      case 0
      with n show ?thesis
        by (simp add: evaluate_key.simps evaluate_expr.simps evaluate_ref.simps and_then_def)
    next
      case (Suc b)
      with n Suc.prems Suc.IH show ?thesis
        by (simp add: evaluate_key.simps evaluate_expr.simps evaluate_ref.simps outcome_defs)
    qed
  qed
qed

lemma unwrap_self_cycle:
  "evaluated (s i) \<Longrightarrow> cache (s i) = Some (Ref i ks m) \<Longrightarrow>
   unwrap n (Suc (Suc d)) root (Ref i ks m) s = None"
proof (induction n)
  case 0
  show ?case by (simp add: unwrap.simps)
next
  case (Suc n)
  show ?case
  proof (cases n)
    case 0
    then show ?thesis by (simp add: unwrap.simps evaluate_expr2.simps and_then_def)
  next
    case n: (Suc a)
    show ?thesis
    proof (cases a)
      case 0
      with n show ?thesis
        by (simp add: unwrap.simps evaluate_expr2.simps evaluate_ref2.simps and_then_def)
    next
      case (Suc b)
      with n Suc.prems Suc.IH show ?thesis
        by (simp add: unwrap.simps evaluate_expr2.simps evaluate_ref2.simps outcome_defs)
    qed
  qed
qed

lemma evaluate_key_Str:
  "evaluate_key (Suc n) d root (Str a) s = return (Str a) s"
  by (simp add: evaluate_key.simps)

lemma evaluate_key_Ref:
  "evaluate_key (Suc n) (Suc (Suc d)) root (Ref i ks m) s =
     (if evaluated (s i) \<and> cache (s i) = Some (Ref i ks m) then None
      else and_then (evaluate_expr n (Suc d) root (Ref i ks m) s) (\<lambda>_ s1.
             case cache (s1 i) of
               None \<Rightarrow> raise (RuntimeError ''Failed to evaluate reference.'') s1
             | Some c \<Rightarrow> evaluate_key n (Suc (Suc d)) root c s1))"
proof (cases "evaluated (s i) \<and> cache (s i) = Some (Ref i ks m)")
  case True
  then have "evaluate_key (Suc n) (Suc (Suc d)) root (Ref i ks m) s = None"
    by (simp add: evaluate_key_self_cycle)
  with True show ?thesis by simp
next
  case False
  then show ?thesis by (auto simp: evaluate_key.simps)
qed

lemma unwrap_Str:
  "unwrap (Suc n) d root (Str a) s = return (Str a) s"
  by (simp add: unwrap.simps)

lemma unwrap_Table:
  "unwrap (Suc n) d root (Table its) s = return (Table its) s"
  by (simp add: unwrap.simps)

lemma unwrap_Ref:
  "unwrap (Suc n) (Suc (Suc d)) root (Ref i ks m) s =
     (if evaluated (s i) \<and> cache (s i) = Some (Ref i ks m) then None
      else and_then (evaluate_expr2 n (Suc d) root (Ref i ks m) s) (\<lambda>_ s1.
             case cache (s1 i) of
               None \<Rightarrow> raise (RuntimeError ''Failed to evaluate reference.'') s1
             | Some c \<Rightarrow> unwrap n (Suc (Suc d)) root c s1))"
proof (cases "evaluated (s i) \<and> cache (s i) = Some (Ref i ks m)")
  case True
  then have "unwrap (Suc n) (Suc (Suc d)) root (Ref i ks m) s = None"
    by (simp add: unwrap_self_cycle)
  with True show ?thesis by simp
next
  case False
  then show ?thesis by (auto simp: unwrap.simps)
qed

lemmas evaluate_key_cases = evaluate_key_Str evaluate_key_Ref

lemmas unwrap_cases = unwrap_Str unwrap_Table unwrap_Ref

lemmas cycle_run =
  evaluate_expr.simps evaluate_ref.simps evaluate_ref_keys.simps evaluate_ref_items.simps
  evaluate_table.simps evaluate_key_cases
  evaluate_expr2.simps evaluate_ref2.simps evaluate_ref_keys2.simps evaluate_ref_items2.simps
  evaluate_table2.simps unwrap_cases
  evaluate_def evaluate2_def fresh_def outcome_defs print_def printable_def
  eval_nat_numeral Let_def

lemma cache_cycle_large:
  "evaluate (30 + m) (20 + d) doc_cache_cycle fresh = None"
  by (simp add: doc_cache_cycle_def cycle_run)

lemma cache_cycle2_large:
  "evaluate2 (30 + m) (20 + d) doc_cache_cycle fresh = None"
  by (simp add: doc_cache_cycle_def cycle_run)

lemma cache_cycle_all:
  "evaluate n (20 + d) doc_cache_cycle fresh = None"
proof (cases "evaluate n (20 + d) doc_cache_cycle fresh")
  case None
  then show ?thesis .
next
  case (Some r)
  then have "evaluate (n + (30 + n)) (20 + d) doc_cache_cycle fresh = Some r"
    by (rule evaluate_more)
  moreover have "n + (30 + n) = 30 + (n + n)" by simp
  ultimately show ?thesis using cache_cycle_large [of "n + n" d] by simp
qed

lemma cache_cycle2_all:
  "evaluate2 n (20 + d) doc_cache_cycle fresh = None"
proof (cases "evaluate2 n (20 + d) doc_cache_cycle fresh")
  case None
  then show ?thesis .
next
  case (Some r)
  then have "evaluate2 (n + (30 + n)) (20 + d) doc_cache_cycle fresh = Some r"
    by (rule evaluate2_more)
  moreover have "n + (30 + n) = 30 + (n + n)" by simp
  ultimately show ?thesis using cache_cycle2_large [of "n + n" d] by simp
qed

text \<open>
  Claim C9 as stated fails. Neither module has a cap of its own or a \<^verbatim>\<open>DepthExceeded\<close>
  error, and evaluation is not total. In \<open>doc_cache_cycle\<close> the first key gets the
  reference at \<^verbatim>\<open>a\<close> as its cache and that reference gets itself; the scan of the
  reference at \<^verbatim>\<open>z\<close> then unwraps the first key, and the \<^verbatim>\<open>while\<close> loop of \<^verbatim>\<open>_evaluate_key\<close>
  (of \<^verbatim>\<open>_unwrap\<close>) follows the cache of that reference for ever. The loop pushes no frame,
  so the interpreter's bound on the stack does not end it: with any stack of 20 frames
  or more and whatever number of steps is allowed, neither a value nor an error is
  returned.
\<close>

theorem cache_cycle_diverges:
  "(\<forall>n d. evaluate n (20 + d) doc_cache_cycle fresh = None) \<and>
   (\<forall>n d. evaluate2 n (20 + d) doc_cache_cycle fresh = None)"
  using cache_cycle_all cache_cycle2_all by blast

lemma walk_evaluate_key:
  "walk s k e = Some v \<Longrightarrow>
   evaluate_key (Suc (Suc (k + n))) (Suc (Suc d)) root e s = Some (Inr v, s)"
proof (induction k arbitrary: e)
  case 0
  then show ?case by (auto simp: evaluate_key.simps return_def split: if_splits)
next
  case (Suc k)
  show ?case
  proof (cases "is_Str e \<or> is_Int e")
    case True
    with Suc.prems show ?thesis by (auto simp: evaluate_key.simps return_def)
  next
    case False
    with Suc.prems obtain i ks m c where
      e: "e = Ref i ks m" and flag: "evaluated (s i)" and c: "cache (s i) = Some c"
      and w: "walk s k c = Some v"
      by (auto split: expr.splits if_splits option.splits)
    from Suc.IH [OF w] e flag c show ?thesis
      by (simp add: evaluate_key.simps evaluate_expr.simps evaluate_ref.simps outcome_defs)
  qed
qed

lemma walk_unwrap:
  "walk s k e = Some v \<Longrightarrow>
   unwrap (Suc (Suc (k + n))) (Suc (Suc d)) root e s = Some (Inr v, s)"
proof (induction k arbitrary: e)
  case 0
  then show ?case by (cases e) (auto simp: unwrap.simps return_def split: if_splits)
next
  case (Suc k)
  show ?case
  proof (cases "is_Str e \<or> is_Int e")
    case True
    with Suc.prems show ?thesis by (cases e) (auto simp: unwrap.simps return_def)
  next
    case False
    with Suc.prems obtain i ks m c where
      e: "e = Ref i ks m" and flag: "evaluated (s i)" and c: "cache (s i) = Some c"
      and w: "walk s k c = Some v"
      by (auto split: expr.splits if_splits option.splits)
    from Suc.IH [OF w] e flag c show ?thesis
      by (simp add: unwrap.simps evaluate_expr2.simps evaluate_ref2.simps outcome_defs)
  qed
qed

text \<open>
  Claim C9, as the code has it. Following the caches of references that have already
  been evaluated returns as soon as the chain reaches a \<^verbatim>\<open>Str\<close> or \<^verbatim>\<open>Int\<close>: a chain of \<open>k\<close>
  references is followed within \<open>k + 2\<close> steps, by \<^verbatim>\<open>_evaluate_key\<close> and by \<^verbatim>\<open>_unwrap\<close>, the
  state is left as it is, and two frames suffice whatever the length of the chain (the
  loop calls \<^verbatim>\<open>_evaluate\<close>, which calls \<^verbatim>\<open>_evaluate_ref\<close>, which returns at once). When the
  chain is cyclic, here: from a reference that has been evaluated and is its own cache,
  neither of them returns, whatever the number of steps, as soon as these two frames are
  there: no bound of the modules and no bound of the interpreter ends the loop.
\<close>

theorem acyclic_cache_chain_terminates:
  "(walk s k e = Some v \<longrightarrow>
      evaluate_key (Suc (Suc (k + n))) (Suc (Suc d)) root e s = Some (Inr v, s) \<and>
      unwrap (Suc (Suc (k + n))) (Suc (Suc d)) root e s = Some (Inr v, s)) \<and>
   (evaluated (s i) \<and> cache (s i) = Some (Ref i ks m) \<longrightarrow>
      evaluate_key n (Suc (Suc d)) root (Ref i ks m) s = None \<and>
      unwrap n (Suc (Suc d)) root (Ref i ks m) s = None)"
  by (simp add: walk_evaluate_key walk_unwrap evaluate_key_self_cycle unwrap_self_cycle)

text \<open>
  The chain of two caches that evaluating \<open>doc_chain\<close> leaves at its first reference, and
  the state that evaluating \<open>doc_self_cached\<close> leaves at its first reference, which is its
  own cache.
\<close>

theorem acyclic_cache_chain_terminates_witness:
  "walk chain_evaluated 2 (Ref 0 [Str ''b''] ABSOLUTE) = Some (Str ''1'') \<and>
   evaluate_key (Suc (Suc (2 + 0))) (Suc (Suc 0)) doc_chain (Ref 0 [Str ''b''] ABSOLUTE) chain_evaluated
     = Some (Inr (Str ''1''), chain_evaluated) \<and>
   unwrap (Suc (Suc (2 + 0))) (Suc (Suc 0)) doc_chain (Ref 0 [Str ''b''] ABSOLUTE) chain_evaluated
     = Some (Inr (Str ''1''), chain_evaluated) \<and>
   (\<forall>n. evaluate_key n (Suc (Suc 0)) doc_self_cached (Ref 0 [Str ''s''] ABSOLUTE)
          (fresh(0 := \<lparr>parent = Some doc_self_cached,
                         cache = Some (Ref 0 [Str ''s''] ABSOLUTE), evaluated = True\<rparr>)) = None) \<and>
   (\<forall>n. unwrap n (Suc (Suc 0)) doc_self_cached (Ref 0 [Str ''s''] ABSOLUTE)
          (fresh(0 := \<lparr>parent = Some doc_self_cached,
                         cache = Some (Ref 0 [Str ''s''] ABSOLUTE), evaluated = True\<rparr>)) = None)"
proof -
  let ?s = "fresh(0 := \<lparr>parent = Some doc_self_cached,
                         cache = Some (Ref 0 [Str ''s''] ABSOLUTE), evaluated = True\<rparr>)"
  have w: "walk chain_evaluated 2 (Ref 0 [Str ''b''] ABSOLUTE) = Some (Str ''1'')"
    by (simp add: chain_evaluated_def doc_chain_def run_defs)
  have c: "evaluated (?s 0) \<and> cache (?s 0) = Some (Ref 0 [Str ''s''] ABSOLUTE)"
    by simp
  from acyclic_cache_chain_terminates
         [where s = chain_evaluated and k = 2 and e = "Ref 0 [Str ''b''] ABSOLUTE"
            and v = "Str ''1''" and n = 0 and d = 0 and root = doc_chain] w
  have 1: "evaluate_key (Suc (Suc (2 + 0))) (Suc (Suc 0)) doc_chain (Ref 0 [Str ''b''] ABSOLUTE)
             chain_evaluated = Some (Inr (Str ''1''), chain_evaluated) \<and>
           unwrap (Suc (Suc (2 + 0))) (Suc (Suc 0)) doc_chain (Ref 0 [Str ''b''] ABSOLUTE)
             chain_evaluated = Some (Inr (Str ''1''), chain_evaluated)"
    by blast
  have 2: "evaluate_key n (Suc (Suc 0)) doc_self_cached (Ref 0 [Str ''s''] ABSOLUTE) ?s = None \<and>
           unwrap n (Suc (Suc 0)) doc_self_cached (Ref 0 [Str ''s''] ABSOLUTE) ?s = None" for n
    using acyclic_cache_chain_terminates
            [where s = ?s and i = 0 and ks = "[Str ''s'']" and m = ABSOLUTE and n = n and d = 0
               and root = doc_self_cached] c
    by blast
  from w 1 2 show ?thesis by blast
qed

section \<open>When the stack is full\<close>

text \<open>
  The only bound on the depth of the recursion is the interpreter's, and its
  \<^verbatim>\<open>RecursionError\<close> is not reported as such: it is a \<^verbatim>\<open>RuntimeError\<close>, which the scans
  catch like the failure of any sibling key. In \<open>doc_nested_key\<close> the key of the entry
  \<^verbatim>\<open>"first"\<close> unwraps to \<^verbatim>\<open>"k"\<close> through two nested references. With a stack that suffices
  (20 frames or more) the reference at \<^verbatim>\<open>r\<close> finds that entry. With a smaller stack (12
  frames for \<^verbatim>\<open>evaluator.py\<close>, 8 for \<^verbatim>\<open>evaluator2.py\<close>) unwrapping that key overflows, the scan
  skips the entry, and \<^verbatim>\<open>evaluate\<close> returns normally with the later entry \<^verbatim>\<open>"second"\<close> as
  the cache of the reference, the two nested references being left flagged and without
  a cache.
\<close>

theorem stack_overflow_is_swallowed:
  "caches [0, 1, 2] (evaluate 40 12 doc_nested_key fresh)
     = Some (Inr doc_nested_key, [Some (Str ''second''), None, None]) \<and>
   caches [0, 1, 2] (evaluate2 40 8 doc_nested_key fresh)
     = Some (Inr doc_nested_key, [Some (Str ''second''), None, None]) \<and>
   (\<forall>d. caches [0, 1, 2] (evaluate 40 (20 + d) doc_nested_key fresh)
          = Some (Inr doc_nested_key, [Some (Str ''first''), Some (Str ''k''), Some (Str ''b'')])) \<and>
   (\<forall>d. caches [0, 1, 2] (evaluate2 40 (20 + d) doc_nested_key fresh)
          = Some (Inr doc_nested_key, [Some (Str ''first''), Some (Str ''k''), Some (Str ''b'')]))"
  by (simp add: doc_nested_key_def run_defs)

end
